theory Spec2Isabelle
  imports Main "HOL-Library.Multiset"
begin

section \<open>Field and step model (app/store/formBuilderStore.ts)\<close>

text \<open>
  The six field kinds of \<^verbatim>\<open>FieldType\<close>; the constructors are the source's tag strings
  with a capital, \<^verbatim>\<open>typeString\<close> gives the tag string itself.
\<close>

datatype FieldType = Text | Textarea | Dropdown | Checkbox | Date | FileUpload

datatype Theme = Light | Dark

fun typeString :: "FieldType \<Rightarrow> string" where
  "typeString Text = ''text''"
| "typeString Textarea = ''textarea''"
| "typeString Dropdown = ''dropdown''"
| "typeString Checkbox = ''checkbox''"
| "typeString Date = ''date''"
| "typeString FileUpload = ''fileUpload''"

text \<open>
  \<^verbatim>\<open>validation: { minLength?: number; maxLength?: number; pattern?: string }\<close>.
  An absent property is \<open>None\<close>. Numbers are integers here: the properties panel
  stores the result of \<^verbatim>\<open>parseInt\<close>.
\<close>

record Validation =
  minLength :: "int option"
  maxLength :: "int option"
  pattern :: "string option"

text \<open>A dropdown option \<^verbatim>\<open>{ label, value }\<close> is the pair (label, value).\<close>

type_synonym DropdownOption = "string \<times> string"

text \<open>
  A field object. \<^verbatim>\<open>id\<close> is called \<open>id_field\<close> (HOL has its own \<open>id\<close>). The
  properties \<^verbatim>\<open>options\<close>, \<^verbatim>\<open>accept\<close> and \<^verbatim>\<open>multiple\<close> belong to the dropdown and
  file-upload variants only; as the source merges partial updates into any field with an
  object spread, the model keeps them as optional properties of every field.
\<close>

record FormField =
  id_field :: string
  type :: FieldType
  label :: string
  placeholder :: "string option"
  required :: bool
  helpText :: "string option"
  order :: int
  validation :: Validation
  options :: "DropdownOption list option"
  accept :: "string option"
  multiple :: "bool option"

text \<open>
  What the \<^verbatim>\<open>fields\<close> array holds at run time. \<open>Field f\<close> is a field object.
  \<open>Bare k\<close> is the object \<^verbatim>\<open>{ order: k }\<close> with no other property: \<^verbatim>\<open>reorderFields\<close>
  builds it as \<^verbatim>\<open>{ ...removed, order: index }\<close> when the start index lies outside the
  array and \<^verbatim>\<open>removed\<close> is \<^verbatim>\<open>undefined\<close>.
\<close>

datatype FieldObj = Field FormField | Bare int

fun obj_id :: "FieldObj \<Rightarrow> string option" where
  "obj_id (Field f) = Some (id_field f)"
| "obj_id (Bare k) = None"

fun obj_order :: "FieldObj \<Rightarrow> int" where
  "obj_order (Field f) = order f"
| "obj_order (Bare k) = k"

fun with_order :: "FieldObj \<Rightarrow> int \<Rightarrow> FieldObj" where
  "with_order (Field f) k = Field (f\<lparr>order := k\<rparr>)"
| "with_order (Bare j) k = Bare k"

record FormStep =
  id_step :: string
  name :: string
  fieldIds :: "string list"

text \<open>
  \<^verbatim>\<open>Partial<AnyFormField>\<close>: every property of a field, each one optional. \<open>None\<close> is
  a property the update does not carry.
\<close>

record FieldUpdates =
  u_id :: "string option"
  u_type :: "FieldType option"
  u_label :: "string option"
  u_placeholder :: "string option"
  u_required :: "bool option"
  u_helpText :: "string option"
  u_order :: "int option"
  u_validation :: "Validation option"
  u_options :: "DropdownOption list option"
  u_accept :: "string option"
  u_multiple :: "bool option"

definition no_updates :: FieldUpdates where
  "no_updates = \<lparr>u_id = None, u_type = None, u_label = None, u_placeholder = None,
     u_required = None, u_helpText = None, u_order = None, u_validation = None,
     u_options = None, u_accept = None, u_multiple = None\<rparr>"

section \<open>Store state\<close>

text \<open>
  \<^verbatim>\<open>HistoryState\<close> and \<^verbatim>\<open>FormBuilderState\<close>. The store state has the five properties
  of a history entry and three more, so it is the record extension (\<^verbatim>\<open>fields\<close> is called \<open>fields_arr\<close>: the record
  package has a \<open>fields\<close> of its own); \<open>fields_arr\<close>, \<open>steps\<close>,
  \<open>activeStepId\<close>, \<open>formName\<close> and \<open>theme\<close> read both.
\<close>

record HistoryState =
  fields_arr :: "FieldObj list"
  steps :: "FormStep list"
  activeStepId :: "string option"
  formName :: string
  theme :: Theme

record FormBuilderState = HistoryState +
  selectedFieldId :: "string option"
  past :: "HistoryState list"
  future :: "HistoryState list"

definition initialFormBuilderState :: FormBuilderState where
  "initialFormBuilderState =
     \<lparr>fields_arr = [], steps = [], activeStepId = None, formName = ''My New Form'',
      theme = Light, selectedFieldId = None, past = [], future = []\<rparr>"

section \<open>JavaScript array helpers\<close>

text \<open>\<^verbatim>\<open>xs.slice(-n)\<close>: the last \<open>n\<close> elements, all of them when there are fewer.\<close>

definition slice_last :: "nat \<Rightarrow> 'a list \<Rightarrow> 'a list" where
  "slice_last n xs = drop (length xs - n) xs"

text \<open>
  \<^verbatim>\<open>xs.find(P)\<close> returns a reference to the first element satisfying \<open>P\<close>, and the
  source then writes to that object. \<open>modify_found P f xs\<close> is the array after such a
  write \<open>f\<close>; \<open>find P xs\<close> (of the list library) tells whether there is such an element.
\<close>

fun modify_found :: "('a \<Rightarrow> bool) \<Rightarrow> ('a \<Rightarrow> 'a) \<Rightarrow> 'a list \<Rightarrow> 'a list" where
  "modify_found P f [] = []"
| "modify_found P f (x # xs) = (if P x then f x # xs else x # modify_found P f xs)"

text \<open>
  The start position \<^verbatim>\<open>splice\<close> computes from its first argument and the array length:
  a negative index counts from the end, and the result is clamped to \<open>0..len\<close>.
\<close>

definition splice_start :: "int \<Rightarrow> nat \<Rightarrow> nat" where
  "splice_start i len =
     (if i < 0 then nat (max (int len + i) 0) else nat (min i (int len)))"

text \<open>
  \<^verbatim>\<open>const [removed] = xs.splice(i, 1)\<close>: the element removed (\<open>None\<close> is \<^verbatim>\<open>undefined\<close>,
  when the start position is the end of the array) and the array left.
\<close>

definition splice_remove :: "int \<Rightarrow> 'a list \<Rightarrow> 'a option \<times> 'a list" where
  "splice_remove i xs =
     (let k = splice_start i (length xs)
      in if k < length xs then (Some (xs ! k), take k xs @ drop (Suc k) xs)
         else (None, xs))"

text \<open>\<^verbatim>\<open>xs.splice(i, 0, x)\<close>: insert one item at the start position.\<close>

definition splice_insert :: "int \<Rightarrow> 'a \<Rightarrow> 'a list \<Rightarrow> 'a list" where
  "splice_insert i x xs =
     (let k = splice_start i (length xs) in take k xs @ [x] @ drop k xs)"

text \<open>\<^verbatim>\<open>xs.map((x, index) => f(x, index))\<close>, indices counted from \<open>k\<close>.\<close>

fun map_index :: "('a \<Rightarrow> nat \<Rightarrow> 'b) \<Rightarrow> nat \<Rightarrow> 'a list \<Rightarrow> 'b list" where
  "map_index f k [] = []"
| "map_index f k (x # xs) = f x k # map_index f (Suc k) xs"

text \<open>
  \<^verbatim>\<open>type.charAt(0).toUpperCase() + type.slice(1)\<close> on the ASCII tag strings.
\<close>

definition toUpperCase_char :: "char \<Rightarrow> char" where
  "toUpperCase_char c =
     (let n = (of_char c :: nat) in if 97 \<le> n \<and> n \<le> 122 then char_of (n - 32) else c)"

fun capitalize :: "string \<Rightarrow> string" where
  "capitalize [] = []"
| "capitalize (c # cs) = toUpperCase_char c # cs"

section \<open>The store's actions\<close>

text \<open>
  The history entry built from the current state. \<^verbatim>\<open>structuredClone\<close> returns an equal
  value, so in this value model it is the identity.
\<close>

definition historyState :: "FormBuilderState \<Rightarrow> HistoryState" where
  "historyState s =
     \<lparr>fields_arr = fields_arr s, steps = steps s, activeStepId = activeStepId s,
      formName = formName s, theme = theme s\<rparr>"

definition addToHistory :: "FormBuilderState \<Rightarrow> FormBuilderState" where
  "addToHistory s = s\<lparr>past := slice_last 9 (past s) @ [historyState s], future := []\<rparr>"

text \<open>
  \<^verbatim>\<open>addField(type)\<close>. The two results of \<^verbatim>\<open>uuidv4()\<close> are parameters: \<open>newId\<close> for
  the field, \<open>stepId\<close> for the step created when there is none (unused otherwise).
\<close>

definition baseField :: "FieldType \<Rightarrow> string \<Rightarrow> int \<Rightarrow> FormField" where
  "baseField ty newId n =
     \<lparr>id_field = newId, type = ty,
      label = ''New '' @ capitalize (typeString ty) @ '' Field'',
      placeholder = None, required = False, helpText = None, order = n,
      validation = \<lparr>minLength = None, maxLength = None, pattern = None\<rparr>,
      options = None, accept = None, multiple = None\<rparr>"

fun newField :: "FieldType \<Rightarrow> string \<Rightarrow> int \<Rightarrow> FormField" where
  "newField Dropdown newId n =
     (baseField Dropdown newId n)\<lparr>options := Some [(''Option 1'', ''option1'')]\<rparr>"
| "newField FileUpload newId n =
     (baseField FileUpload newId n)\<lparr>accept := Some '''', multiple := Some False\<rparr>"
| "newField ty newId n = baseField ty newId n"

definition push_fieldId :: "string \<Rightarrow> FormStep \<Rightarrow> FormStep" where
  "push_fieldId i st = st\<lparr>fieldIds := fieldIds st @ [i]\<rparr>"

definition addField :: "FieldType \<Rightarrow> string \<Rightarrow> string \<Rightarrow> FormBuilderState \<Rightarrow> FormBuilderState" where
  "addField ty newId stepId s0 =
     (let s = addToHistory s0;
          nf = newField ty newId (int (length (fields_arr s)));
          updatedFields = fields_arr s @ [Field nf]
      in if steps s = [] then
           s\<lparr>fields_arr := updatedFields,
             steps := [\<lparr>id_step = stepId, name = ''Step 1'', fieldIds = [newId]\<rparr>],
             activeStepId := Some stepId\<rparr>
         else
           (let isActive = (\<lambda>st. Some (id_step st) = activeStepId s);
                currentSteps =
                  (if find isActive (steps s) \<noteq> None
                   then modify_found isActive (push_fieldId newId) (steps s)
                   else modify_found (\<lambda>st. True) (push_fieldId newId) (steps s))
            in s\<lparr>fields_arr := updatedFields, steps := currentSteps\<rparr>))"

text \<open>\<^verbatim>\<open>{ ...field, ...updates }\<close>: a property of \<open>updates\<close> replaces the field's.\<close>

definition merge_updates :: "FormField \<Rightarrow> FieldUpdates \<Rightarrow> FormField" where
  "merge_updates f u =
     \<lparr>id_field = (case u_id u of Some v \<Rightarrow> v | None \<Rightarrow> id_field f),
      type = (case u_type u of Some v \<Rightarrow> v | None \<Rightarrow> type f),
      label = (case u_label u of Some v \<Rightarrow> v | None \<Rightarrow> label f),
      placeholder = (case u_placeholder u of Some v \<Rightarrow> Some v | None \<Rightarrow> placeholder f),
      required = (case u_required u of Some v \<Rightarrow> v | None \<Rightarrow> required f),
      helpText = (case u_helpText u of Some v \<Rightarrow> Some v | None \<Rightarrow> helpText f),
      order = (case u_order u of Some v \<Rightarrow> v | None \<Rightarrow> order f),
      validation = (case u_validation u of Some v \<Rightarrow> v | None \<Rightarrow> validation f),
      options = (case u_options u of Some v \<Rightarrow> Some v | None \<Rightarrow> options f),
      accept = (case u_accept u of Some v \<Rightarrow> Some v | None \<Rightarrow> accept f),
      multiple = (case u_multiple u of Some v \<Rightarrow> Some v | None \<Rightarrow> multiple f)\<rparr>"

fun update_obj :: "string \<Rightarrow> FieldUpdates \<Rightarrow> FieldObj \<Rightarrow> FieldObj" where
  "update_obj i u (Field f) = (if id_field f = i then Field (merge_updates f u) else Field f)"
| "update_obj i u (Bare k) = Bare k"

definition updateField :: "string \<Rightarrow> FieldUpdates \<Rightarrow> FormBuilderState \<Rightarrow> FormBuilderState" where
  "updateField i u s0 =
     (let s = addToHistory s0 in s\<lparr>fields_arr := map (update_obj i u) (fields_arr s)\<rparr>)"

text \<open>\<^verbatim>\<open>!newActiveStepId\<close>: \<^verbatim>\<open>null\<close> and the empty string are falsy.\<close>

definition falsy :: "string option \<Rightarrow> bool" where
  "falsy a = (a = None \<or> a = Some '''')"

definition removeField :: "string \<Rightarrow> FormBuilderState \<Rightarrow> FormBuilderState" where
  "removeField i s0 =
     (let s = addToHistory s0;
          updatedFields = filter (\<lambda>fo. obj_id fo \<noteq> Some i) (fields_arr s);
          updatedSteps =
            filter (\<lambda>st. length (fieldIds st) > 0)
              (map (\<lambda>st. st\<lparr>fieldIds := filter (\<lambda>j. j \<noteq> i) (fieldIds st)\<rparr>) (steps s));
          newActiveStepId =
            (if length updatedSteps > 0 \<and>
                (falsy (activeStepId s) \<or>
                 \<not> list_ex (\<lambda>st. Some (id_step st) = activeStepId s) updatedSteps)
             then Some (id_step (hd updatedSteps))
             else if length updatedSteps = 0 then None
             else activeStepId s)
      in s\<lparr>fields_arr := updatedFields, steps := updatedSteps,
           selectedFieldId := (if selectedFieldId s = Some i then None else selectedFieldId s),
           activeStepId := newActiveStepId\<rparr>)"

text \<open>
  \<^verbatim>\<open>reorderFields(startIndex, endIndex)\<close>. \<^verbatim>\<open>sort\<close> is stable, as \<open>sort_key\<close> is. The
  indices are JavaScript numbers, which \<^verbatim>\<open>splice\<close> truncates to integers. When nothing
  is removed the source still inserts \<^verbatim>\<open>undefined\<close>, and the final \<^verbatim>\<open>map\<close> turns it
  into \<^verbatim>\<open>{ order: index }\<close>.
\<close>

fun renumber :: "FieldObj option \<Rightarrow> nat \<Rightarrow> FieldObj" where
  "renumber (Some fo) k = with_order fo (int k)"
| "renumber None k = Bare (int k)"

definition reorderFields :: "int \<Rightarrow> int \<Rightarrow> FormBuilderState \<Rightarrow> FormBuilderState" where
  "reorderFields startIndex endIndex s0 =
     (let s = addToHistory s0;
          sortedFields = map Some (sort_key obj_order (fields_arr s));
          (removed, rest) = splice_remove startIndex sortedFields;
          moved = splice_insert endIndex (case removed of Some r \<Rightarrow> r | None \<Rightarrow> None) rest
      in s\<lparr>fields_arr := map_index renumber 0 moved\<rparr>)"

definition setSelectedField :: "string option \<Rightarrow> FormBuilderState \<Rightarrow> FormBuilderState" where
  "setSelectedField i s = s\<lparr>selectedFieldId := i\<rparr>"

definition setFormName :: "string \<Rightarrow> FormBuilderState \<Rightarrow> FormBuilderState" where
  "setFormName n s0 = (let s = addToHistory s0 in s\<lparr>formName := n\<rparr>)"

definition toggleTheme :: "FormBuilderState \<Rightarrow> FormBuilderState" where
  "toggleTheme s = s\<lparr>theme := (if theme s = Light then Dark else Light)\<rparr>"

text \<open>
  The decimal digits of a number, for \<^verbatim>\<open>`Step ${n}`\<close> and the error messages.
  (JavaScript prints a number of \<open>10\<^sup>2\<^sup>1\<close> or more in exponent notation; the model prints its
  digits. No statement below depends on the digits of such a number.)
\<close>

function show_nat :: "nat \<Rightarrow> string" where
  "show_nat n =
     (if n < 10 then [char_of (48 + n)] else show_nat (n div 10) @ [char_of (48 + n mod 10)])"
  by pat_completeness auto
termination
  by (relation "measure (\<lambda>n. n)") auto

definition show_int :: "int \<Rightarrow> string" where
  "show_int i = (if i < 0 then CHR ''-'' # show_nat (nat (- i)) else show_nat (nat i))"

text \<open>\<^verbatim>\<open>addStep()\<close>; the result of \<^verbatim>\<open>uuidv4()\<close> is the parameter \<open>stepId\<close>.\<close>

definition addStep :: "string \<Rightarrow> FormBuilderState \<Rightarrow> FormBuilderState" where
  "addStep stepId s0 =
     (let s = addToHistory s0;
          newStep = \<lparr>id_step = stepId,
                     name = ''Step '' @ show_nat (length (steps s) + 1),
                     fieldIds = []\<rparr>
      in s\<lparr>steps := steps s @ [newStep], activeStepId := Some stepId\<rparr>)"

definition updateStepName :: "string \<Rightarrow> string \<Rightarrow> FormBuilderState \<Rightarrow> FormBuilderState" where
  "updateStepName stepId newName s0 =
     (let s = addToHistory s0
      in s\<lparr>steps := map (\<lambda>st. if id_step st = stepId then st\<lparr>name := newName\<rparr> else st)
                        (steps s)\<rparr>)"

text \<open>
  \<^verbatim>\<open>removeStep(stepId)\<close>. When the step is not found the source returns the state as it
  is, after the history entry has been added. \<^verbatim>\<open>state.selectedFieldId || ''\<close> is the
  empty string for \<^verbatim>\<open>null\<close>.
\<close>

definition removeStep :: "string \<Rightarrow> FormBuilderState \<Rightarrow> FormBuilderState" where
  "removeStep stepId s0 =
     (let s = addToHistory s0
      in case find (\<lambda>st. id_step st = stepId) (steps s) of
           None \<Rightarrow> s
         | Some removedStep \<Rightarrow>
             (let updatedSteps = filter (\<lambda>st. id_step st \<noteq> stepId) (steps s);
                  fieldsToReassign = fieldIds removedStep;
                  newActiveStepId =
                    (if length updatedSteps > 0 then Some (id_step (hd updatedSteps)) else None);
                  updatedSteps' =
                    (if length updatedSteps > 0 \<and> length fieldsToReassign > 0
                     then modify_found (\<lambda>st. Some (id_step st) = newActiveStepId)
                            (\<lambda>st. st\<lparr>fieldIds := fieldIds st @ fieldsToReassign\<rparr>) updatedSteps
                     else updatedSteps)
              in s\<lparr>steps := updatedSteps',
                   activeStepId := newActiveStepId,
                   selectedFieldId :=
                     (if (case selectedFieldId s of None \<Rightarrow> [] | Some x \<Rightarrow> x)
                           \<in> set fieldsToReassign
                      then None else selectedFieldId s)\<rparr>))"

definition moveFieldToStep :: "string \<Rightarrow> string \<Rightarrow> FormBuilderState \<Rightarrow> FormBuilderState" where
  "moveFieldToStep fieldId targetStepId s0 =
     (let s = addToHistory s0;
          updatedSteps =
            map (\<lambda>st.
                  let newFieldIds = filter (\<lambda>i. i \<noteq> fieldId) (fieldIds st);
                      newFieldIds' =
                        (if id_step st = targetStepId
                         then (if fieldId \<notin> set newFieldIds then newFieldIds @ [fieldId]
                               else newFieldIds)
                         else newFieldIds)
                  in st\<lparr>fieldIds := newFieldIds'\<rparr>)
                (steps s)
      in s\<lparr>steps := updatedSteps\<rparr>)"

definition setActiveStep :: "string \<Rightarrow> FormBuilderState \<Rightarrow> FormBuilderState" where
  "setActiveStep stepId s = s\<lparr>activeStepId := Some stepId\<rparr>"

text \<open>
  \<^verbatim>\<open>undo()\<close> and \<^verbatim>\<open>redo()\<close>: \<^verbatim>\<open>set({ ...previousState, past, future, selectedFieldId })\<close>
  writes all eight properties of the state.
\<close>

definition undo :: "FormBuilderState \<Rightarrow> FormBuilderState" where
  "undo s =
     (if length (past s) = 0 then s
      else
        (let previousState = last (past s);
             newPast = butlast (past s);
             currentState = historyState s
         in \<lparr>fields_arr = fields_arr previousState, steps = steps previousState,
             activeStepId = activeStepId previousState, formName = formName previousState,
             theme = theme previousState,
             selectedFieldId = None, past = newPast, future = currentState # future s\<rparr>))"

definition redo :: "FormBuilderState \<Rightarrow> FormBuilderState" where
  "redo s =
     (if length (future s) = 0 then s
      else
        (let nextState = hd (future s);
             newFuture = tl (future s);
             currentState = historyState s
         in \<lparr>fields_arr = fields_arr nextState, steps = steps nextState,
             activeStepId = activeStepId nextState, formName = formName nextState,
             theme = theme nextState,
             selectedFieldId = None, past = past s @ [currentState], future = newFuture\<rparr>))"

definition clearForm :: "FormBuilderState \<Rightarrow> FormBuilderState" where
  "clearForm s0 =
     (let s = addToHistory s0
      in s\<lparr>fields_arr := [], steps := [], activeStepId := None, selectedFieldId := None,
           formName := formName initialFormBuilderState, future := []\<rparr>)"

section \<open>Operations as data\<close>

text \<open>
  The ten actions that call \<^verbatim>\<open>_addToHistory\<close> (the mutating operations), and all
  fifteen actions of the store.
\<close>

datatype Mutation =
    AddField FieldType string string
  | UpdateField string FieldUpdates
  | RemoveField string
  | ReorderFields int int
  | SetFormName string
  | AddStep string
  | UpdateStepName string string
  | RemoveStep string
  | MoveFieldToStep string string
  | ClearForm

fun mutate :: "Mutation \<Rightarrow> FormBuilderState \<Rightarrow> FormBuilderState" where
  "mutate (AddField ty newId stepId) s = addField ty newId stepId s"
| "mutate (UpdateField i u) s = updateField i u s"
| "mutate (RemoveField i) s = removeField i s"
| "mutate (ReorderFields a b) s = reorderFields a b s"
| "mutate (SetFormName n) s = setFormName n s"
| "mutate (AddStep stepId) s = addStep stepId s"
| "mutate (UpdateStepName stepId n) s = updateStepName stepId n s"
| "mutate (RemoveStep stepId) s = removeStep stepId s"
| "mutate (MoveFieldToStep i stepId) s = moveFieldToStep i stepId s"
| "mutate ClearForm s = clearForm s"

datatype Action =
    Mutate Mutation
  | SetSelectedField "string option"
  | SetActiveStep string
  | ToggleTheme
  | Undo
  | Redo

fun act :: "Action \<Rightarrow> FormBuilderState \<Rightarrow> FormBuilderState" where
  "act (Mutate m) s = mutate m s"
| "act (SetSelectedField i) s = setSelectedField i s"
| "act (SetActiveStep stepId) s = setActiveStep stepId s"
| "act ToggleTheme s = toggleTheme s"
| "act Undo s = undo s"
| "act Redo s = redo s"

text \<open>A sequence of operations, applied from left to right.\<close>

fun mutate_all :: "Mutation list \<Rightarrow> FormBuilderState \<Rightarrow> FormBuilderState" where
  "mutate_all [] s = s"
| "mutate_all (m # ms) s = mutate_all ms (mutate m s)"

fun act_all :: "Action list \<Rightarrow> FormBuilderState \<Rightarrow> FormBuilderState" where
  "act_all [] s = s"
| "act_all (a # as) s = act_all as (act a s)"

text \<open>The states a sequence of mutating operations passes through, before each operation.\<close>

fun states_before :: "Mutation list \<Rightarrow> FormBuilderState \<Rightarrow> FormBuilderState list" where
  "states_before [] s = []"
| "states_before (m # ms) s = s # states_before ms (mutate m s)"

text \<open>A state with one step holding two field ids, for the examples of \<open>moveFieldToStep\<close>.\<close>

definition two_in_step :: FormBuilderState where
  "two_in_step = initialFormBuilderState
     \<lparr>steps := [\<lparr>id_step = ''s1'', name = ''Step 1'', fieldIds = [''f1'', ''f2'']\<rparr>]\<rparr>"

text \<open>
  What \<open>moveFieldToStep f t\<close> makes of one step's list, in closed form: the list without
  \<open>f\<close>, and \<open>f\<close> at its end in the target step.
\<close>

definition moved_ids :: "string \<Rightarrow> string \<Rightarrow> FormStep \<Rightarrow> string list" where
  "moved_ids f t st = filter (\<lambda>i. i \<noteq> f) (fieldIds st) @ (if id_step st = t then [f] else [])"

text \<open>Three steps with one field each; the third is active and the second field selected.\<close>

definition three_steps :: FormBuilderState where
  "three_steps = initialFormBuilderState
     \<lparr>fields_arr := [Field (newField Text ''f1'' 0), Field (newField Text ''f2'' 1),
                     Field (newField Text ''f3'' 2)],
      steps := [\<lparr>id_step = ''s1'', name = ''Step 1'', fieldIds = [''f1'']\<rparr>,
                \<lparr>id_step = ''s2'', name = ''Step 2'', fieldIds = [''f2'']\<rparr>,
                \<lparr>id_step = ''s3'', name = ''Step 3'', fieldIds = [''f3'']\<rparr>],
      activeStepId := Some ''s3'',
      selectedFieldId := Some ''f2''\<rparr>"

section \<open>Field validation (app/components/FormPreview.tsx, app/routes/fill-form.$formId.tsx)\<close>

text \<open>
  The regular-expression engine is the JavaScript run time's, not the repository's: it is a
  parameter \<open>RegExp\<close>. \<open>RegExp p = None\<close> means that \<^verbatim>\<open>new RegExp(p)\<close> throws (the pattern
  does not parse); \<open>RegExp p = Some test\<close> gives the predicate \<^verbatim>\<open>regex.test\<close>.
\<close>

type_synonym regexp_engine = "string \<Rightarrow> (string \<Rightarrow> bool) option"

text \<open>The five messages, as the template strings build them from the label.\<close>

definition required_msg :: "string \<Rightarrow> string" where
  "required_msg l = l @ '' is required.''"

definition too_short_msg :: "string \<Rightarrow> int \<Rightarrow> string" where
  "too_short_msg l n = l @ '' must be at least '' @ show_int n @ '' characters.''"

definition too_long_msg :: "string \<Rightarrow> int \<Rightarrow> string" where
  "too_long_msg l n = l @ '' must be at most '' @ show_int n @ '' characters.''"

definition format_msg :: "string \<Rightarrow> string" where
  "format_msg l = l @ '' format is invalid.''"

definition invalid_pattern_msg :: "string \<Rightarrow> string" where
  "invalid_pattern_msg l = ''Invalid validation pattern for '' @ l @ ''.''"

text \<open>
  The checks on a text or textarea field, which both validators share word for word.
  Each check that fails overwrites the error found so far (\<open>e\<close>). A number is truthy when
  it is not zero, a string when it is not empty.
\<close>

definition length_and_pattern_checks ::
  "regexp_engine \<Rightarrow> FormField \<Rightarrow> string \<Rightarrow> string option \<Rightarrow> string option" where
  "length_and_pattern_checks RegExp f currentValue e =
     (let e1 = (case minLength (validation f) of
                  Some n \<Rightarrow> if n \<noteq> 0 \<and> int (length currentValue) < n
                            then Some (too_short_msg (label f) n) else e
                | None \<Rightarrow> e);
          e2 = (case maxLength (validation f) of
                  Some n \<Rightarrow> if n \<noteq> 0 \<and> int (length currentValue) > n
                            then Some (too_long_msg (label f) n) else e1
                | None \<Rightarrow> e1)
      in case pattern (validation f) of
           Some p \<Rightarrow>
             if type f = Text \<and> p \<noteq> [] then
               (case RegExp p of
                  Some test \<Rightarrow> if currentValue \<noteq> [] \<and> \<not> test currentValue
                                then Some (format_msg (label f)) else e2
                | None \<Rightarrow> Some (invalid_pattern_msg (label f)))
             else e2
         | None \<Rightarrow> e2)"

text \<open>
  \<^verbatim>\<open>validateField(currentValue)\<close> of the form preview. The component's \<^verbatim>\<open>field\<close> and
  whether \<^verbatim>\<open>selectedFile\<close> is set are parameters. The result is \<^verbatim>\<open>currentError\<close>, the
  value passed to \<^verbatim>\<open>setError\<close> (\<open>None\<close> is \<^verbatim>\<open>null\<close>).
\<close>

definition validateField_error ::
  "regexp_engine \<Rightarrow> FormField \<Rightarrow> bool \<Rightarrow> string \<Rightarrow> string option" where
  "validateField_error RegExp f selectedFile currentValue =
     (let e0 = (if required f then
                  (if type f = FileUpload then
                     (if \<not> selectedFile then Some (required_msg (label f)) else None)
                   else if currentValue = [] then Some (required_msg (label f))
                   else None)
                else None)
      in if type f = Text \<or> type f = Textarea then
           length_and_pattern_checks RegExp f currentValue e0
         else if type f = Checkbox then
           (if required f \<and> currentValue \<noteq> ''true'' then Some (required_msg (label f))
            else e0)
         else e0)"


text \<open>
  The body of the loop of \<^verbatim>\<open>validateStep\<close> in the form filler, for one field and its
  value \<^verbatim>\<open>formValues[field.id] || ''\<close>: the error stored for the field.
\<close>

definition validateStep_error :: "regexp_engine \<Rightarrow> FormField \<Rightarrow> string \<Rightarrow> string option" where
  "validateStep_error RegExp f v =
     (if required f \<and> v = [] then Some (required_msg (label f))
      else if type f = Text \<or> type f = Textarea then
        length_and_pattern_checks RegExp f v None
      else None)"


definition toy_engine :: regexp_engine where
  "toy_engine p = (if p = ''('' then None else Some (\<lambda>v. v = p))"

text \<open>A text field, not required, whose only validation rule is the pattern \<open>p\<close>.\<close>

definition with_pattern :: "string \<Rightarrow> FormField" where
  "with_pattern p = (newField Text ''f1'' 0)
     \<lparr>validation := \<lparr>minLength = None, maxLength = None, pattern = Some p\<rparr>\<rparr>"

section \<open>Field ids and the references of steps to fields\<close>

text \<open>The ids of the field objects of a document, in array order (an object without id has none).\<close>

definition field_ids :: "'a HistoryState_scheme \<Rightarrow> string list" where
  "field_ids h = List.map_filter obj_id (fields_arr h)"

text \<open>All ids the steps of a document list, step after step.\<close>

definition listed_ids :: "'a HistoryState_scheme \<Rightarrow> string list" where
  "listed_ids h = concat (map fieldIds (steps h))"

text \<open>
  Referential integrity as the specification's P1 and I1 word it: every id in a step's list
  is the id of a field, and no id is in the lists of two steps.
\<close>

definition referential_integrity :: "'a HistoryState_scheme \<Rightarrow> bool" where
  "referential_integrity h \<longleftrightarrow>
     (\<forall>st \<in> set (steps h). \<forall>i \<in> set (fieldIds st). i \<in> set (field_ids h)) \<and>
     (\<forall>a < length (steps h). \<forall>b < length (steps h).
        a \<noteq> b \<longrightarrow> set (fieldIds (steps h ! a)) \<inter> set (fieldIds (steps h ! b)) = {})"

text \<open>
  \<^verbatim>\<open>uuidv4()\<close> returns an identifier that is not in use: the new field's id is the id of no
  field, the new step's id the id of no step.
\<close>

fun fresh_ids :: "Action \<Rightarrow> FormBuilderState \<Rightarrow> bool" where
  "fresh_ids (Mutate (AddField ty newId stepId)) s =
     (newId \<notin> set (field_ids s) \<and> stepId \<notin> set (map id_step (steps s)))"
| "fresh_ids (Mutate (AddStep stepId)) s = (stepId \<notin> set (map id_step (steps s)))"
| "fresh_ids a s = True"

text \<open>
  Calls that keep to the fields there are: a partial update that carries no \<^verbatim>\<open>id\<close>, and a
  move of a field that exists.
\<close>

fun refers_to_fields :: "Action \<Rightarrow> FormBuilderState \<Rightarrow> bool" where
  "refers_to_fields (Mutate (UpdateField i u)) s = (u_id u = None)"
| "refers_to_fields (Mutate (MoveFieldToStep i stepId)) s = (i \<in> set (field_ids s))"
| "refers_to_fields a s = True"

text \<open>\<open>guarded g as s\<close>: the condition \<open>g\<close> holds for each action of the sequence, in the state it is applied to.\<close>

fun guarded :: "(Action \<Rightarrow> FormBuilderState \<Rightarrow> bool) \<Rightarrow> Action list \<Rightarrow> FormBuilderState \<Rightarrow> bool" where
  "guarded g [] s = True"
| "guarded g (a # as) s = (g a s \<and> guarded g as (act a s))"

text \<open>The actions that neither add nor remove a field, nor restore a snapshot, nor rewrite an id.\<close>

fun keeps_field_ids :: "Action \<Rightarrow> bool" where
  "keeps_field_ids (Mutate (AddField ty newId stepId)) = False"
| "keeps_field_ids (Mutate (UpdateField i u)) = (u_id u = None)"
| "keeps_field_ids (Mutate (RemoveField i)) = False"
| "keeps_field_ids (Mutate ClearForm) = False"
| "keeps_field_ids Undo = False"
| "keeps_field_ids Redo = False"
| "keeps_field_ids a = True"

text \<open>The state after \<^verbatim>\<open>addField('text')\<close> on the empty document.\<close>

definition one_field :: FormBuilderState where
  "one_field = addField Text ''f1'' ''s1'' initialFormBuilderState"

text \<open>The id of an entry of the array \<^verbatim>\<open>splice\<close> works on (\<open>None\<close> is \<^verbatim>\<open>undefined\<close>).\<close>

fun opt_id :: "FieldObj option \<Rightarrow> string option" where
  "opt_id (Some fo) = obj_id fo"
| "opt_id None = None"

fun is_reorder :: "Action \<Rightarrow> bool" where
  "is_reorder (Mutate (ReorderFields a b)) = True"
| "is_reorder a = False"

text \<open>
  The invariant of a document that the store's actions maintain: every listed id is the id
  of a field, no id is listed twice (in one step or in two), and the step ids are unique.
\<close>

definition doc_inv :: "'a HistoryState_scheme \<Rightarrow> bool" where
  "doc_inv h \<longleftrightarrow>
     set (listed_ids h) \<subseteq> set (field_ids h) \<and> distinct (listed_ids h) \<and>
     distinct (map id_step (steps h))"

text \<open>The invariant of the store: it holds of the document and of every history entry.\<close>

definition store_inv :: "FormBuilderState \<Rightarrow> bool" where
  "store_inv s \<longleftrightarrow>
     doc_inv s \<and> (\<forall>h \<in> set (past s). doc_inv h) \<and> (\<forall>h \<in> set (future s). doc_inv h)"

text \<open>Both conditions on the arguments: fresh identifiers, and calls that keep to the fields there are.\<close>

definition well_referenced :: "Action \<Rightarrow> FormBuilderState \<Rightarrow> bool" where
  "well_referenced a s \<longleftrightarrow> fresh_ids a s \<and> refers_to_fields a s"

text \<open>Action sequences for the examples of referential integrity.\<close>

definition ghost_move :: "Action list" where
  "ghost_move = [Mutate (AddField Text ''f1'' ''s1''), Mutate (MoveFieldToStep ''ghost'' ''s1'')]"

definition id_rewrite :: "Action list" where
  "id_rewrite = [Mutate (AddField Text ''f1'' ''s1''),
                 Mutate (UpdateField ''f1'' (no_updates\<lparr>u_id := Some ''x''\<rparr>))]"

definition edit_session :: "Action list" where
  "edit_session = [Mutate (AddField Text ''f1'' ''s1''), Mutate (AddStep ''s2''),
                   Mutate (AddField Date ''f2'' ''s3''), Mutate (MoveFieldToStep ''f1'' ''s2''),
                   Mutate (RemoveStep ''s1''), Undo]"


text \<open>
  A field object with its \<^verbatim>\<open>order\<close> set aside (put to 0), to compare objects whatever
  their position; and the field objects of a document that have an id, compared so.
\<close>

definition without_order :: "FieldObj \<Rightarrow> FieldObj" where
  "without_order fo = with_order fo 0"

definition plain_fields :: "'a HistoryState_scheme \<Rightarrow> FieldObj list" where
  "plain_fields h = filter (\<lambda>fo. obj_id fo \<noteq> None) (map without_order (fields_arr h))"

text \<open>An entry of the array \<^verbatim>\<open>splice\<close> works on, with the order set aside; \<^verbatim>\<open>undefined\<close> becomes \<^verbatim>\<open>{ order }\<close>.\<close>

fun opt_plain :: "FieldObj option \<Rightarrow> FieldObj" where
  "opt_plain (Some fo) = without_order fo"
| "opt_plain None = Bare 0"

text \<open>The actions that write no field object except for its \<^verbatim>\<open>order\<close>.\<close>

fun keeps_field_objects :: "Action \<Rightarrow> bool" where
  "keeps_field_objects (Mutate (AddField ty newId stepId)) = False"
| "keeps_field_objects (Mutate (UpdateField i u)) = False"
| "keeps_field_objects (Mutate (RemoveField i)) = False"
| "keeps_field_objects (Mutate ClearForm) = False"
| "keeps_field_objects Undo = False"
| "keeps_field_objects Redo = False"
| "keeps_field_objects a = True"

text \<open>Two more actions for the examples: a reorder inside the array, and one outside it.\<close>

definition move_first_to_last :: Action where
  "move_first_to_last = Mutate (ReorderFields 0 2)"

definition move_from_outside :: Action where
  "move_from_outside = Mutate (ReorderFields 5 0)"

section \<open>Undo after a mutating operation\<close>

lemma past_addToHistory: "past (addToHistory s) = slice_last 9 (past s) @ [historyState s]"
  by (simp add: addToHistory_def)

lemma past_mutate: "past (mutate m s) = slice_last 9 (past s) @ [historyState s]"
proof (cases m)
  case (AddField ty a b)
  then show ?thesis by (simp add: addField_def Let_def addToHistory_def)
next
  case (RemoveStep i)
  then show ?thesis by (simp add: removeStep_def Let_def addToHistory_def split: option.splits)
next
  case (ReorderFields a b)
  then show ?thesis by (simp add: reorderFields_def Let_def addToHistory_def split: prod.splits)
qed (simp_all add: updateField_def removeField_def setFormName_def addStep_def
       updateStepName_def moveFieldToStep_def clearForm_def Let_def addToHistory_def)

lemma undo_snoc:
  "past s = hs @ [h] \<Longrightarrow>
   undo s = \<lparr>fields_arr = fields_arr h, steps = steps h, activeStepId = activeStepId h,
             formName = formName h, theme = theme h, selectedFieldId = None, past = hs,
             future = historyState s # future s\<rparr>"
  by (simp add: undo_def Let_def)

text \<open>
  C1. For every state \<open>s\<close> and every mutating operation \<open>m\<close> (addField, updateField,
  removeField, reorderFields, setFormName, addStep, updateStepName, removeStep,
  moveFieldToStep, clearForm, with any arguments), \<open>undo\<close> after \<open>m\<close> gives back the
  fields, steps, activeStepId, formName and theme of \<open>s\<close>, and the selection is null.
\<close>

theorem undo_after_mutation:
  "fields_arr (undo (mutate m s)) = fields_arr s \<and>
   steps (undo (mutate m s)) = steps s \<and>
   activeStepId (undo (mutate m s)) = activeStepId s \<and>
   formName (undo (mutate m s)) = formName s \<and>
   theme (undo (mutate m s)) = theme s \<and>
   selectedFieldId (undo (mutate m s)) = None"
  by (simp add: undo_snoc [OF past_mutate] historyState_def)

section \<open>The bound on the past stack\<close>

lemma length_states_before: "length (states_before ms s) = length ms"
  by (induction ms arbitrary: s) auto

lemma slice_last_snoc: "slice_last 9 xs @ [x] = slice_last 10 (xs @ [x])"
  by (simp add: slice_last_def)

lemma slice_last_slice_last_app:
  "slice_last 10 (slice_last 10 xs @ ys) = slice_last 10 (xs @ ys)"
proof -
  have "length xs + length ys - (length xs - 10 + 10) + (length xs - 10)
      = length xs + length ys - 10"
    by arith
  then show ?thesis by (simp add: slice_last_def)
qed

lemma past_mutate_all:
  "ms \<noteq> [] \<Longrightarrow>
   past (mutate_all ms s) = slice_last 10 (past s @ map historyState (states_before ms s))"
proof (induction ms arbitrary: s)
  case Nil
  then show ?case by simp
next
  case (Cons m ms)
  show ?case
  proof (cases "ms = []")
    case True
    then show ?thesis by (simp add: past_mutate slice_last_snoc)
  next
    case False
    then have "past (mutate_all ms (mutate m s))
        = slice_last 10 (past (mutate m s) @ map historyState (states_before ms (mutate m s)))"
      by (rule Cons.IH)
    then show ?thesis
      by (simp add: past_mutate slice_last_snoc slice_last_slice_last_app)
  qed
qed

lemma past_undo: "past (undo s) = butlast (past s)"
  by (simp add: undo_def Let_def)

lemma past_undo_funpow: "past ((undo ^^ k) s) = take (length (past s) - k) (past s)"
proof (induction k)
  case 0
  then show ?case by simp
next
  case (Suc k)
  then show ?case by (simp add: past_undo butlast_take)
qed

lemma undo_noop: "past s = [] \<Longrightarrow> undo s = s"
  by (simp add: undo_def)

lemma undo_funpow_noop: "past s = [] \<Longrightarrow> (undo ^^ k) s = s"
  by (induction k) (simp_all add: undo_noop)

text \<open>
  C4. After more than ten consecutive mutating operations, from any state, the past stack
  holds exactly the history entries of the last ten states the sequence went through (the
  older ones are dropped); each of the first ten calls of \<open>undo\<close> removes one entry, and
  from the tenth call on \<open>undo\<close> changes nothing.
\<close>

theorem history_bound:
  assumes "length ms > 10"
  shows "past (mutate_all ms s) = slice_last 10 (map historyState (states_before ms s)) \<and>
         length (past (mutate_all ms s)) = 10 \<and>
         (\<forall>k\<le>10. length (past ((undo ^^ k) (mutate_all ms s))) = 10 - k) \<and>
         (\<forall>k\<ge>10. (undo ^^ k) (mutate_all ms s) = (undo ^^ 10) (mutate_all ms s))"
proof -
  from assms have ne: "ms \<noteq> []" by auto
  have p: "past (mutate_all ms s) = slice_last 10 (map historyState (states_before ms s))"
    using assms by (simp add: past_mutate_all [OF ne] slice_last_def length_states_before)
  have l: "length (past (mutate_all ms s)) = 10"
    using assms by (simp add: p slice_last_def length_states_before)
  have u: "\<forall>k\<le>10. length (past ((undo ^^ k) (mutate_all ms s))) = 10 - k"
    by (simp add: past_undo_funpow l)
  have e: "past ((undo ^^ 10) (mutate_all ms s)) = []"
    by (simp add: past_undo_funpow l)
  have n: "\<forall>k\<ge>10. (undo ^^ k) (mutate_all ms s) = (undo ^^ 10) (mutate_all ms s)"
  proof (intro allI impI)
    fix k :: nat assume "10 \<le> k"
    then have "k = (k - 10) + 10" by simp
    then have "(undo ^^ k) (mutate_all ms s) = (undo ^^ (k - 10)) ((undo ^^ 10) (mutate_all ms s))"
      by (metis funpow_add o_apply)
    then show "(undo ^^ k) (mutate_all ms s) = (undo ^^ 10) (mutate_all ms s)"
      by (simp add: undo_funpow_noop [OF e])
  qed
  from p l u n show ?thesis by blast
qed

theorem history_bound_witness:
  "length (replicate 11 ClearForm) > 10 \<and>
   length (past (mutate_all (replicate 11 ClearForm) initialFormBuilderState)) = 10 \<and>
   length (past ((undo ^^ 4) (mutate_all (replicate 11 ClearForm) initialFormBuilderState))) = 6 \<and>
   (undo ^^ 11) (mutate_all (replicate 11 ClearForm) initialFormBuilderState)
     = (undo ^^ 10) (mutate_all (replicate 11 ClearForm) initialFormBuilderState)"
proof -
  have h: "length (replicate 11 ClearForm) > 10" by simp
  note t = history_bound [OF h, of initialFormBuilderState]
  from t have a: "length (past (mutate_all (replicate 11 ClearForm) initialFormBuilderState)) = 10"
    by (elim conjE)
  from t have "\<forall>k\<le>10. length (past ((undo ^^ k)
      (mutate_all (replicate 11 ClearForm) initialFormBuilderState))) = 10 - k"
    by (elim conjE)
  from this [rule_format, of 4]
  have b: "length (past ((undo ^^ 4)
      (mutate_all (replicate 11 ClearForm) initialFormBuilderState))) = 6"
    by linarith
  from t have "\<forall>k\<ge>10. (undo ^^ k) (mutate_all (replicate 11 ClearForm) initialFormBuilderState)
      = (undo ^^ 10) (mutate_all (replicate 11 ClearForm) initialFormBuilderState)"
    by (elim conjE)
  from this [rule_format, of 11]
  have c: "(undo ^^ 11) (mutate_all (replicate 11 ClearForm) initialFormBuilderState)
     = (undo ^^ 10) (mutate_all (replicate 11 ClearForm) initialFormBuilderState)"
    by linarith
  from h a b c show ?thesis by (intro conjI)
qed

section \<open>updateField with an id no field has\<close>

lemma update_obj_other: "obj_id fo \<noteq> Some i \<Longrightarrow> update_obj i u fo = fo"
  by (cases fo) auto

lemma map_update_obj_none:
  "Some i \<notin> obj_id ` set fs \<Longrightarrow> map (update_obj i u) fs = fs"
  by (induction fs) (auto simp: update_obj_other)

text \<open>
  C9, as the code has it. When no field has the id \<open>i\<close>, \<open>updateField i u\<close> leaves fields,
  steps, activeStepId, selectedFieldId, formName and theme as they are; it is not a no-op
  on the whole state, since it has added a history entry: the past stack is its last nine
  entries followed by the entry of the current state, and the future stack is empty.
\<close>

theorem updateField_unknown_id:
  assumes "Some i \<notin> obj_id ` set (fields_arr s)"
  shows "fields_arr (updateField i u s) = fields_arr s \<and>
         steps (updateField i u s) = steps s \<and>
         activeStepId (updateField i u s) = activeStepId s \<and>
         selectedFieldId (updateField i u s) = selectedFieldId s \<and>
         formName (updateField i u s) = formName s \<and>
         theme (updateField i u s) = theme s \<and>
         past (updateField i u s) = slice_last 9 (past s) @ [historyState s] \<and>
         future (updateField i u s) = []"
  using assms by (simp add: updateField_def addToHistory_def Let_def map_update_obj_none)

theorem updateField_unknown_id_witness:
  "Some ''ghost'' \<notin> obj_id ` set (fields_arr initialFormBuilderState) \<and>
   fields_arr (updateField ''ghost'' no_updates initialFormBuilderState) = [] \<and>
   length (past (updateField ''ghost'' no_updates initialFormBuilderState)) = 1 \<and>
   future (updateField ''ghost'' no_updates initialFormBuilderState) = []"
proof -
  have h: "Some ''ghost'' \<notin> obj_id ` set (fields_arr initialFormBuilderState)"
    by (simp add: initialFormBuilderState_def)
  from updateField_unknown_id [OF h, of no_updates] h show ?thesis
    by (simp add: initialFormBuilderState_def slice_last_def)
qed

text \<open>
  C9 as stated fails: in the initial state no field has the id \<open>ghost\<close>, and
  \<open>updateField\<close> with that id returns a state different from the one it was given.
\<close>

theorem updateField_unknown_id_counterexample:
  "Some ''ghost'' \<notin> obj_id ` set (fields_arr initialFormBuilderState) \<and>
   updateField ''ghost'' no_updates initialFormBuilderState \<noteq> initialFormBuilderState"
  by (simp add: updateField_def addToHistory_def Let_def initialFormBuilderState_def
      slice_last_def historyState_def)

section \<open>moveFieldToStep\<close>

lemma steps_moveFieldToStep:
  "steps (moveFieldToStep f t s) = map (\<lambda>st. st\<lparr>fieldIds := moved_ids f t st\<rparr>) (steps s)"
  by (simp add: moveFieldToStep_def addToHistory_def Let_def moved_ids_def)

lemma filter_snoc_self:
  "filter (\<lambda>i. i \<noteq> f) xs @ [f] = xs \<longleftrightarrow> (\<exists>ys. xs = ys @ [f] \<and> f \<notin> set ys)"
proof
  assume a: "filter (\<lambda>i. i \<noteq> f) xs @ [f] = xs"
  have "f \<notin> set (filter (\<lambda>i. i \<noteq> f) xs)" by simp
  with a show "\<exists>ys. xs = ys @ [f] \<and> f \<notin> set ys" by metis
next
  assume "\<exists>ys. xs = ys @ [f] \<and> f \<notin> set ys"
  then obtain ys where "xs = ys @ [f]" "f \<notin> set ys" by blast
  then show "filter (\<lambda>i. i \<noteq> f) xs @ [f] = xs"
    by (auto simp: filter_id_conv)
qed

lemma filter_neq_self: "filter (\<lambda>i. i \<noteq> f) xs = xs \<longleftrightarrow> f \<notin> set xs"
  by (auto simp: filter_id_conv)

lemma step_fieldIds_update_id: "st\<lparr>fieldIds := xs\<rparr> = st \<longleftrightarrow> xs = fieldIds st"
  by (cases st) auto

text \<open>
  C5, as the code has it. \<open>moveFieldToStep f t\<close> keeps the steps' ids and names; each
  step's new list is its old list without \<open>f\<close>, followed by \<open>f\<close> when the step's id is \<open>t\<close>.
  A second identical call changes no step. One call leaves the steps unchanged exactly
  when \<open>f\<close> is already the last entry of every step with id \<open>t\<close>, occurs only once there, and
  occurs in no other step; a field that is in the target step but not last is moved to
  the end of the list.
\<close>

theorem moveFieldToStep_steps:
  "map id_step (steps (moveFieldToStep f t s)) = map id_step (steps s) \<and>
   map name (steps (moveFieldToStep f t s)) = map name (steps s) \<and>
   map fieldIds (steps (moveFieldToStep f t s)) =
     map (\<lambda>st. filter (\<lambda>i. i \<noteq> f) (fieldIds st) @ (if id_step st = t then [f] else []))
       (steps s) \<and>
   steps (moveFieldToStep f t (moveFieldToStep f t s)) = steps (moveFieldToStep f t s) \<and>
   (steps (moveFieldToStep f t s) = steps s \<longleftrightarrow>
     (\<forall>st \<in> set (steps s).
        if id_step st = t then (\<exists>ys. fieldIds st = ys @ [f] \<and> f \<notin> set ys)
        else f \<notin> set (fieldIds st)))"
proof -
  have a: "map id_step (steps (moveFieldToStep f t s)) = map id_step (steps s)"
    by (simp add: steps_moveFieldToStep o_def)
  have b: "map name (steps (moveFieldToStep f t s)) = map name (steps s)"
    by (simp add: steps_moveFieldToStep o_def)
  have c: "map fieldIds (steps (moveFieldToStep f t s)) =
     map (\<lambda>st. filter (\<lambda>i. i \<noteq> f) (fieldIds st) @ (if id_step st = t then [f] else []))
       (steps s)"
    by (simp add: steps_moveFieldToStep o_def moved_ids_def)
  have d: "steps (moveFieldToStep f t (moveFieldToStep f t s)) = steps (moveFieldToStep f t s)"
    by (simp add: steps_moveFieldToStep o_def moved_ids_def)
  have "steps (moveFieldToStep f t s) = steps s \<longleftrightarrow>
        (\<forall>st \<in> set (steps s). moved_ids f t st = fieldIds st)"
    by (simp add: steps_moveFieldToStep map_idI step_fieldIds_update_id
        map_eq_conv [where g = "\<lambda>x. x", simplified])
  also have "\<dots> \<longleftrightarrow> (\<forall>st \<in> set (steps s).
        if id_step st = t then (\<exists>ys. fieldIds st = ys @ [f] \<and> f \<notin> set ys)
        else f \<notin> set (fieldIds st))"
    by (simp add: moved_ids_def filter_snoc_self filter_neq_self)
  finally have e: "steps (moveFieldToStep f t s) = steps s \<longleftrightarrow>
     (\<forall>st \<in> set (steps s).
        if id_step st = t then (\<exists>ys. fieldIds st = ys @ [f] \<and> f \<notin> set ys)
        else f \<notin> set (fieldIds st))" .
  from a b c d e show ?thesis by blast
qed

theorem moveFieldToStep_steps_witness:
  "map fieldIds (steps two_in_step) = [[''f1'', ''f2'']] \<and>
   steps (moveFieldToStep ''f2'' ''s1'' two_in_step) = steps two_in_step \<and>
   map fieldIds (steps (moveFieldToStep ''f1'' ''s1'' two_in_step)) = [[''f2'', ''f1'']]"
proof -
  have "[''f1'', ''f2''] = [''f1''] @ [''f2''] \<and> ''f2'' \<notin> set [''f1'']" by simp
  then have "\<exists>ys. [''f1'', ''f2''] = ys @ [''f2''] \<and> ''f2'' \<notin> set ys" by (rule exI)
  then have h: "\<forall>st \<in> set (steps two_in_step).
        if id_step st = ''s1'' then (\<exists>ys. fieldIds st = ys @ [''f2''] \<and> ''f2'' \<notin> set ys)
        else ''f2'' \<notin> set (fieldIds st)"
    by (simp add: two_in_step_def)
  from moveFieldToStep_steps [of "''f2''" "''s1''" two_in_step] h
  have a: "steps (moveFieldToStep ''f2'' ''s1'' two_in_step) = steps two_in_step" by blast
  from moveFieldToStep_steps [of "''f1''" "''s1''" two_in_step]
  have b: "map fieldIds (steps (moveFieldToStep ''f1'' ''s1'' two_in_step)) = [[''f2'', ''f1'']]"
    by (simp add: two_in_step_def)
  have c: "map fieldIds (steps two_in_step) = [[''f1'', ''f2'']]"
    by (simp add: two_in_step_def)
  from c a b show ?thesis by (intro conjI)
qed

text \<open>
  C5 as stated fails: \<open>f1\<close> already belongs to step \<open>s1\<close>, whose list is \<open>[f1, f2]\<close>, and
  moving \<open>f1\<close> to \<open>s1\<close> changes the steps (the list becomes \<open>[f2, f1]\<close>).
\<close>

theorem moveFieldToStep_counterexample:
  "(\<exists>st \<in> set (steps two_in_step). id_step st = ''s1'' \<and> ''f1'' \<in> set (fieldIds st)) \<and>
   steps (moveFieldToStep ''f1'' ''s1'' two_in_step) \<noteq> steps two_in_step"
  by (simp add: two_in_step_def moveFieldToStep_def addToHistory_def Let_def)

section \<open>removeStep: the active step and the selection\<close>

lemma find_Some_set: "find P xs = Some x \<Longrightarrow> x \<in> set xs \<and> P x"
  by (induction xs) (auto split: if_splits)

lemma find_None_iff_set: "find P xs = None \<longleftrightarrow> (\<forall>x \<in> set xs. \<not> P x)"
  by (induction xs) auto

lemma modify_found_hd: "xs \<noteq> [] \<Longrightarrow> P (hd xs) \<Longrightarrow> modify_found P f xs = f (hd xs) # tl xs"
  by (cases xs) auto

lemma distinct_two_other:
  assumes "2 \<le> length xs" "distinct (map g xs)"
  shows "filter (\<lambda>x. g x \<noteq> a) xs \<noteq> []"
proof -
  from assms(1) obtain x y zs where xs: "xs = x # y # zs"
    by (cases xs; cases "tl xs") auto
  with assms(2) have "g x \<noteq> g y" by auto
  then have "g x \<noteq> a \<or> g y \<noteq> a" by auto
  with xs show ?thesis by auto
qed

lemma distinct_map_unique:
  "distinct (map g xs) \<Longrightarrow> x \<in> set xs \<Longrightarrow> y \<in> set xs \<Longrightarrow> g x = g y \<Longrightarrow> x = y"
  by (meson distinct_map inj_onD)

text \<open>
  C10. In a document with at least two steps (step ids being unique), \<open>removeStep\<close> on
  the id of an existing step leaves at least one step, and makes the first remaining step
  the active one, whatever step was active before. The fields stay as they are; every
  field id of the removed step is in the list of the first remaining step afterwards, and
  when one of them was the selected field, the selection is null afterwards.
\<close>

theorem removeStep_active_and_selection:
  assumes two: "2 \<le> length (steps s)"
    and dist: "distinct (map id_step (steps s))"
    and removed: "removedStep \<in> set (steps s)" "id_step removedStep = stepId"
  shows "filter (\<lambda>st. id_step st \<noteq> stepId) (steps s) \<noteq> [] \<and>
         activeStepId (removeStep stepId s)
           = Some (id_step (hd (filter (\<lambda>st. id_step st \<noteq> stepId) (steps s)))) \<and>
         activeStepId (removeStep stepId s) = Some (id_step (hd (steps (removeStep stepId s)))) \<and>
         fields_arr (removeStep stepId s) = fields_arr s \<and>
         (\<forall>x \<in> set (fieldIds removedStep).
            x \<in> set (fieldIds (hd (steps (removeStep stepId s)))) \<and>
            (selectedFieldId s = Some x \<longrightarrow> selectedFieldId (removeStep stepId s) = None))"
proof -
  let ?rest = "filter (\<lambda>st. id_step st \<noteq> stepId) (steps s)"
  have ne: "?rest \<noteq> []" using two dist by (rule distinct_two_other)
  from removed have "find (\<lambda>st. id_step st = stepId) (steps s) \<noteq> None"
    by (auto simp: find_None_iff_set)
  then obtain r where r: "find (\<lambda>st. id_step st = stepId) (steps s) = Some r" by auto
  then have "r \<in> set (steps s)" "id_step r = stepId" by (auto dest: find_Some_set)
  with removed dist have rr: "r = removedStep" by (auto intro: distinct_map_unique)
  have st: "steps (removeStep stepId s) =
      (if fieldIds removedStep = [] then ?rest
       else (hd ?rest)\<lparr>fieldIds := fieldIds (hd ?rest) @ fieldIds removedStep\<rparr> # tl ?rest)"
    using ne r rr by (simp add: removeStep_def addToHistory_def Let_def modify_found_hd)
  have a: "activeStepId (removeStep stepId s) = Some (id_step (hd ?rest))"
    using ne r rr by (simp add: removeStep_def addToHistory_def Let_def)
  have b: "activeStepId (removeStep stepId s) = Some (id_step (hd (steps (removeStep stepId s))))"
    by (simp add: a st)
  have c: "fields_arr (removeStep stepId s) = fields_arr s"
    using r by (simp add: removeStep_def addToHistory_def Let_def)
  have d: "\<forall>x \<in> set (fieldIds removedStep). x \<in> set (fieldIds (hd (steps (removeStep stepId s))))"
    by (auto simp: st)
  have e: "\<forall>x \<in> set (fieldIds removedStep).
      selectedFieldId s = Some x \<longrightarrow> selectedFieldId (removeStep stepId s) = None"
    using r rr by (auto simp: removeStep_def addToHistory_def Let_def)
  from ne a b c d e show ?thesis by blast
qed

theorem removeStep_active_and_selection_witness:
  "2 \<le> length (steps three_steps) \<and>
   distinct (map id_step (steps three_steps)) \<and>
   steps three_steps ! 1 \<in> set (steps three_steps) \<and>
   id_step (steps three_steps ! 1) = ''s2'' \<and>
   ''f2'' \<in> set (fieldIds (steps three_steps ! 1)) \<and>
   activeStepId three_steps = Some ''s3'' \<and>
   selectedFieldId three_steps = Some ''f2'' \<and>
   activeStepId (removeStep ''s2'' three_steps) = Some ''s1'' \<and>
   selectedFieldId (removeStep ''s2'' three_steps) = None \<and>
   ''f2'' \<in> set (fieldIds (hd (steps (removeStep ''s2'' three_steps))))"
proof -
  have h1: "2 \<le> length (steps three_steps)" by (simp add: three_steps_def)
  have h2: "distinct (map id_step (steps three_steps))" by (simp add: three_steps_def)
  have h3: "steps three_steps ! 1 \<in> set (steps three_steps)" by (simp add: three_steps_def)
  have h4: "id_step (steps three_steps ! 1) = ''s2''" by (simp add: three_steps_def)
  have h5: "''f2'' \<in> set (fieldIds (steps three_steps ! 1))" by (simp add: three_steps_def)
  have h6: "activeStepId three_steps = Some ''s3''" by (simp add: three_steps_def)
  have h7: "selectedFieldId three_steps = Some ''f2''" by (simp add: three_steps_def)
  note t = removeStep_active_and_selection [OF h1 h2 h3 h4]
  from t have "activeStepId (removeStep ''s2'' three_steps)
       = Some (id_step (hd (filter (\<lambda>st. id_step st \<noteq> ''s2'') (steps three_steps))))"
    by (elim conjE)
  then have a: "activeStepId (removeStep ''s2'' three_steps) = Some ''s1''"
    by (simp add: three_steps_def)
  from t h5 h7 have b: "selectedFieldId (removeStep ''s2'' three_steps) = None"
    and c: "''f2'' \<in> set (fieldIds (hd (steps (removeStep ''s2'' three_steps))))"
    by blast+
  from h1 h2 h3 h4 h5 h6 h7 a b c show ?thesis by (intro conjI)
qed

section \<open>Validation: required fields\<close>

lemma validateStep_required_empty:
  "required f \<Longrightarrow> validateStep_error RegExp f [] = Some (required_msg (label f))"
  by (simp add: validateStep_error_def)

lemma validateField_required_other_types:
  "required f \<Longrightarrow> type f \<noteq> Text \<Longrightarrow> type f \<noteq> Textarea \<Longrightarrow>
   (if type f = FileUpload then \<not> selectedFile else currentValue = []) \<Longrightarrow>
   validateField_error RegExp f selectedFile currentValue = Some (required_msg (label f))"
  by (auto simp: validateField_error_def Let_def)









section \<open>Validation: the pattern of a text field\<close>

lemma msg_distinct: "invalid_pattern_msg l \<noteq> format_msg l"
proof
  assume "invalid_pattern_msg l = format_msg l"
  then have "length (invalid_pattern_msg l) = length (format_msg l)" by simp
  then show False by (simp add: invalid_pattern_msg_def format_msg_def)
qed

text \<open>
  C7. For a text field whose \<open>validation.pattern\<close> is \<open>p\<close>: when \<open>p\<close> does not parse,
  \<open>validateField\<close> reports the invalid-pattern message (the exception of the constructor
  is caught, the function returns); when \<open>p\<close> parses and the value is not empty and does
  not match, it reports the format message; and the two messages differ. The code skips an
  empty pattern; the third assumption states what JavaScript does with it (it parses and
  matches every string), and is used for the empty pattern only.
\<close>

theorem validateField_pattern:
  assumes "type f = Text" and "pattern (validation f) = Some p"
    and "p = [] \<Longrightarrow> \<exists>test. RegExp p = Some test \<and> (\<forall>v. test v)"
  shows "(RegExp p = None \<longrightarrow>
            validateField_error RegExp f selectedFile currentValue
              = Some (invalid_pattern_msg (label f))) \<and>
         (\<forall>test. RegExp p = Some test \<and> currentValue \<noteq> [] \<and> \<not> test currentValue \<longrightarrow>
            validateField_error RegExp f selectedFile currentValue
              = Some (format_msg (label f))) \<and>
         invalid_pattern_msg (label f) \<noteq> format_msg (label f)"
proof (cases "p = []")
  case True
  with assms(3) obtain test where "RegExp p = Some test" "\<forall>v. test v" by blast
  then show ?thesis by (auto simp: msg_distinct)
next
  case False
  with assms(1,2) show ?thesis
    by (auto simp: validateField_error_def length_and_pattern_checks_def Let_def msg_distinct
        split: option.splits)
qed

theorem validateField_pattern_witness:
  "type (with_pattern ''('') = Text \<and> pattern (validation (with_pattern ''('')) = Some ''('' \<and>
   toy_engine ''('' = None \<and>
   validateField_error toy_engine (with_pattern ''('') False ''x''
     = Some (invalid_pattern_msg (label (with_pattern ''(''))) \<and>
   type (with_pattern ''ab'') = Text \<and> pattern (validation (with_pattern ''ab'')) = Some ''ab'' \<and>
   validateField_error toy_engine (with_pattern ''ab'') False ''x''
     = Some (format_msg (label (with_pattern ''ab'')))"
proof -
  have a1: "type (with_pattern ''('') = Text" by (simp add: with_pattern_def baseField_def)
  have a2: "pattern (validation (with_pattern ''('')) = Some ''(''" by (simp add: with_pattern_def)
  have a3: "''('' = [] \<Longrightarrow> \<exists>test. toy_engine ''('' = Some test \<and> (\<forall>v. test v)" by simp
  have a4: "toy_engine ''('' = None" by (simp add: toy_engine_def)
  from validateField_pattern
         [of "with_pattern ''(''" "''(''" toy_engine False "''x''", OF a1 a2 a3] a4
  have a: "validateField_error toy_engine (with_pattern ''('') False ''x''
     = Some (invalid_pattern_msg (label (with_pattern ''('')))" by blast
  have b1: "type (with_pattern ''ab'') = Text" by (simp add: with_pattern_def baseField_def)
  have b2: "pattern (validation (with_pattern ''ab'')) = Some ''ab''" by (simp add: with_pattern_def)
  have b3: "''ab'' = [] \<Longrightarrow> \<exists>test. toy_engine ''ab'' = Some test \<and> (\<forall>v. test v)" by simp
  have b4: "toy_engine ''ab'' = Some (\<lambda>v. v = ''ab'') \<and> ''x'' \<noteq> [] \<and> \<not> (\<lambda>v. v = ''ab'') ''x''"
    by (simp add: toy_engine_def)
  from validateField_pattern
         [of "with_pattern ''ab''" "''ab''" toy_engine False "''x''", OF b1 b2 b3] b4
  have b: "validateField_error toy_engine (with_pattern ''ab'') False ''x''
     = Some (format_msg (label (with_pattern ''ab'')))" by blast
  from a1 a2 a4 a b1 b2 b show ?thesis by (intro conjI)
qed

section \<open>Field ids under the store's actions\<close>

lemma field_ids_historyState [simp]: "field_ids (historyState s) = field_ids s"
  by (simp add: field_ids_def historyState_def)

lemma map_filter_append: "List.map_filter f (xs @ ys) = List.map_filter f xs @ List.map_filter f ys"
  by (induction xs) (auto simp: List.map_filter_simps split: option.splits)

lemma map_filter_update_obj:
  "u_id u = None \<Longrightarrow> List.map_filter obj_id (map (update_obj i u) fs) = List.map_filter obj_id fs"
proof (induction fs)
  case Nil
  then show ?case by simp
next
  case (Cons fo fs)
  then show ?case
    by (cases fo) (auto simp: List.map_filter_simps merge_updates_def)
qed

lemma obj_id_update_obj: "u_id u = None \<Longrightarrow> obj_id (update_obj i u fo) = obj_id fo"
  by (cases fo) (auto simp: merge_updates_def)

lemma map_obj_id_update_obj:
  "u_id u = None \<Longrightarrow> map obj_id (map (update_obj i u) fs) = map obj_id fs"
proof (induction fs)
  case Nil
  then show ?case by simp
next
  case (Cons fo fs)
  then show ?case
    by (cases fo) (auto simp: merge_updates_def)
qed

lemma map_filter_remove:
  "List.map_filter obj_id (filter (\<lambda>fo. obj_id fo \<noteq> Some i) fs)
     = filter (\<lambda>j. j \<noteq> i) (List.map_filter obj_id fs)"
  by (induction fs) (auto simp: List.map_filter_simps split: option.splits)

lemma fields_addField:
  "fields_arr (addField ty newId stepId s)
     = fields_arr s @ [Field (newField ty newId (int (length (fields_arr s))))]"
  by (simp add: addField_def addToHistory_def Let_def)

lemma id_newField: "id_field (newField ty newId n) = newId"
  by (cases ty) (simp_all add: baseField_def)

lemma fields_updateField: "fields_arr (updateField i u s) = map (update_obj i u) (fields_arr s)"
  by (simp add: updateField_def addToHistory_def Let_def)

lemma fields_removeField:
  "fields_arr (removeField i s) = filter (\<lambda>fo. obj_id fo \<noteq> Some i) (fields_arr s)"
  by (simp add: removeField_def addToHistory_def Let_def)

lemma fields_unchanged:
  "fields_arr (setFormName n s) = fields_arr s"
  "fields_arr (addStep stepId s) = fields_arr s"
  "fields_arr (updateStepName stepId n s) = fields_arr s"
  "fields_arr (removeStep stepId s) = fields_arr s"
  "fields_arr (moveFieldToStep i stepId s) = fields_arr s"
  "fields_arr (setSelectedField sel s) = fields_arr s"
  "fields_arr (setActiveStep stepId s) = fields_arr s"
  "fields_arr (toggleTheme s) = fields_arr s"
  by (simp_all add: setFormName_def addStep_def updateStepName_def removeStep_def
      moveFieldToStep_def setSelectedField_def setActiveStep_def toggleTheme_def
      addToHistory_def Let_def split: option.splits)



lemma obj_id_with_order: "obj_id (with_order fo k) = obj_id fo"
  by (cases fo) auto

lemma obj_id_renumber: "obj_id (renumber x k) = opt_id x"
  by (cases x) (auto simp: obj_id_with_order)

lemma map_obj_id_map_index: "map obj_id (map_index renumber k xs) = map opt_id xs"
  by (induction xs arbitrary: k) (auto simp: obj_id_renumber)

lemma length_map_index: "length (map_index f k xs) = length xs"
  by (induction xs arbitrary: k) auto

lemma mset_splice_insert: "mset (splice_insert i x xs) = add_mset x (mset xs)"
proof -
  have "mset (take k xs) + mset (drop k xs) = mset xs" for k
    by (metis append_take_drop_id mset_append)
  then show ?thesis by (simp add: splice_insert_def Let_def)
qed

lemma mset_splice_remove:
  "splice_remove i xs = (r, rest) \<Longrightarrow>
   (case r of Some x \<Rightarrow> add_mset x (mset rest) = mset xs | None \<Rightarrow> rest = xs)"
proof -
  assume a: "splice_remove i xs = (r, rest)"
  let ?k = "splice_start i (length xs)"
  show ?thesis
  proof (cases "?k < length xs")
    case True
    with a have r: "r = Some (xs ! ?k)" and rest: "rest = take ?k xs @ drop (Suc ?k) xs"
      by (auto simp: splice_remove_def Let_def)
    from True have "xs = take ?k xs @ xs ! ?k # drop (Suc ?k) xs"
      by (simp add: id_take_nth_drop)
    then have "mset xs = add_mset (xs ! ?k) (mset (take ?k xs @ drop (Suc ?k) xs))"
      by (metis mset.simps(2) mset_append union_mset_add_mset_right)
    with r rest show ?thesis by simp
  next
    case False
    with a show ?thesis by (auto simp: splice_remove_def Let_def)
  qed
qed

lemma splice_remove_None_iff:
  "fst (splice_remove i xs) = None \<longleftrightarrow> \<not> splice_start i (length xs) < length xs"
  by (simp add: splice_remove_def Let_def)

lemma mset_ids_reorderFields:
  "mset (map obj_id (fields_arr (reorderFields a b s)))
     = mset (map obj_id (fields_arr s))
       + (if splice_start a (length (fields_arr s)) < length (fields_arr s) then {#} else {#None#})"
proof -
  let ?sorted = "map Some (sort_key obj_order (fields_arr s))"
  obtain r rest where sr: "splice_remove a ?sorted = (r, rest)" by (cases "splice_remove a ?sorted")
  have f: "fields_arr (reorderFields a b s)
      = map_index renumber 0 (splice_insert b (case r of Some x \<Rightarrow> x | None \<Rightarrow> None) rest)"
    using sr by (simp add: reorderFields_def addToHistory_def Let_def)
  have ms: "image_mset opt_id (mset ?sorted) = image_mset obj_id (mset (fields_arr s))"
  proof -
    have "image_mset opt_id (mset ?sorted) = image_mset obj_id (mset (sort_key obj_order (fields_arr s)))"
      by (simp add: multiset.map_comp o_def)
    then show ?thesis by simp
  qed
  from splice_remove_None_iff [of a ?sorted] sr
  have rn: "r = None \<longleftrightarrow> \<not> splice_start a (length (fields_arr s)) < length (fields_arr s)"
    by simp
  have rm: "image_mset opt_id (mset rest) + (case r of Some x \<Rightarrow> {#opt_id x#} | None \<Rightarrow> {#})
      = image_mset opt_id (mset ?sorted)"
  proof (cases r)
    case None
    with mset_splice_remove [OF sr] show ?thesis by simp
  next
    case (Some x)
    with mset_splice_remove [OF sr] have "add_mset x (mset rest) = mset ?sorted" by simp
    then have "image_mset opt_id (add_mset x (mset rest)) = image_mset opt_id (mset ?sorted)"
      by simp
    with Some show ?thesis by simp
  qed
  have "mset (map obj_id (fields_arr (reorderFields a b s)))
      = add_mset (opt_id (case r of Some x \<Rightarrow> x | None \<Rightarrow> None)) (image_mset opt_id (mset rest))"
    by (simp add: f map_obj_id_map_index mset_splice_insert)
  also have "\<dots> = image_mset opt_id (mset ?sorted) + (if r = None then {#None#} else {#})"
    using rm by (cases r) auto
  finally show ?thesis by (simp add: rn multiset.map_comp o_def)
qed


lemma mset_map_filter:
  "mset (List.map_filter f xs) = image_mset the (filter_mset (\<lambda>x. x \<noteq> None) (image_mset f (mset xs)))"
  by (induction xs) (auto simp: List.map_filter_simps split: option.splits)

lemma map_filter_eq_of_map_eq:
  "map f xs = map f ys \<Longrightarrow> List.map_filter f xs = List.map_filter f ys"
proof (induction xs arbitrary: ys)
  case Nil
  then show ?case by simp
next
  case (Cons x xs)
  then obtain y ys' where "ys = y # ys'" "f x = f y" "map f xs = map f ys'" by auto
  with Cons.IH [of ys'] show ?case by (simp add: List.map_filter_simps split: option.splits)
qed

lemma field_ids_reorderFields: "mset (field_ids (reorderFields a b s)) = mset (field_ids s)"
  by (simp add: field_ids_def mset_map_filter mset_ids_reorderFields [simplified])

lemma field_ids_addField: "field_ids (addField ty newId stepId s) = field_ids s @ [newId]"
  by (simp add: field_ids_def fields_addField map_filter_append List.map_filter_simps id_newField)

lemma field_ids_removeField: "field_ids (removeField i s) = filter (\<lambda>j. j \<noteq> i) (field_ids s)"
  by (simp add: field_ids_def fields_removeField map_filter_remove)

lemma field_ids_clearForm: "field_ids (clearForm s) = []"
  by (simp add: field_ids_def clearForm_def addToHistory_def Let_def List.map_filter_simps)

lemma field_ids_undo:
  "field_ids (undo s) = (if past s = [] then field_ids s else field_ids (last (past s)))"
  by (simp add: field_ids_def undo_def Let_def)

lemma field_ids_redo:
  "field_ids (redo s) = (if future s = [] then field_ids s else field_ids (hd (future s)))"
  by (simp add: field_ids_def redo_def Let_def)

lemma keeps_map_obj_id:
  assumes "keeps_field_ids a" "\<not> is_reorder a"
  shows "map obj_id (fields_arr (act a s)) = map obj_id (fields_arr s)"
proof (cases a)
  case (Mutate m)
  with assms show ?thesis
    by (cases m) (simp_all add: fields_unchanged fields_updateField obj_id_update_obj)
qed (use assms in \<open>simp_all add: fields_unchanged\<close>)

lemma keeps_mset_field_ids:
  assumes "keeps_field_ids a"
  shows "mset (field_ids (act a s)) = mset (field_ids s)"
proof (cases "is_reorder a")
  case True
  then obtain x y where "a = Mutate (ReorderFields x y)"
    by (cases a rule: is_reorder.cases) auto
  then show ?thesis by (simp add: field_ids_reorderFields)
next
  case False
  with assms have "map obj_id (fields_arr (act a s)) = map obj_id (fields_arr s)"
    by (rule keeps_map_obj_id)
  then have "List.map_filter obj_id (fields_arr (act a s)) = List.map_filter obj_id (fields_arr s)"
    by (rule map_filter_eq_of_map_eq)
  then show ?thesis by (simp add: field_ids_def)
qed

lemma keeps_all_mset_field_ids:
  "list_all keeps_field_ids as \<Longrightarrow> mset (field_ids (act_all as s)) = mset (field_ids s)"
  by (induction as arbitrary: s) (simp_all add: keeps_mset_field_ids)

lemma without_order_renumber: "without_order (renumber x k) = opt_plain x"
proof (cases x)
  case None
  then show ?thesis by (simp add: without_order_def)
next
  case (Some fo)
  then show ?thesis by (cases fo) (simp_all add: without_order_def)
qed

lemma map_without_order_map_index:
  "map without_order (map_index renumber k xs) = map opt_plain xs"
  by (induction xs arbitrary: k) (auto simp: without_order_renumber)

lemma obj_order_renumber: "obj_order (renumber x k) = int k"
proof (cases x)
  case None
  then show ?thesis by simp
next
  case (Some fo)
  then show ?thesis by (cases fo) simp_all
qed

lemma map_obj_order_map_index:
  "map obj_order (map_index renumber k xs) = map int [k..<k + length xs]"
proof (induction xs arbitrary: k)
  case Nil
  then show ?case by simp
next
  case (Cons x xs)
  have "k < k + Suc (length xs)" by simp
  then have "[k..<k + Suc (length xs)] = k # [Suc k..<k + Suc (length xs)]"
    by (rule upt_conv_Cons)
  then have "[k..<k + length (x # xs)] = k # [Suc k..<Suc k + length xs]"
    by simp
  with Cons.IH [of "Suc k"] show ?case by (simp add: obj_order_renumber)
qed

lemma reorderFields_objects:
  "mset (map without_order (fields_arr (reorderFields a b s)))
     = mset (map without_order (fields_arr s))
       + (if splice_start a (length (fields_arr s)) < length (fields_arr s) then {#} else {#Bare 0#})"
proof -
  let ?sorted = "map Some (sort_key obj_order (fields_arr s))"
  obtain r rest where sr: "splice_remove a ?sorted = (r, rest)" by (cases "splice_remove a ?sorted")
  have f: "fields_arr (reorderFields a b s)
      = map_index renumber 0 (splice_insert b (case r of Some x \<Rightarrow> x | None \<Rightarrow> None) rest)"
    using sr by (simp add: reorderFields_def addToHistory_def Let_def)
  from splice_remove_None_iff [of a ?sorted] sr
  have rn: "r = None \<longleftrightarrow> \<not> splice_start a (length (fields_arr s)) < length (fields_arr s)"
    by simp
  have rm: "image_mset opt_plain (mset rest)
        + (case r of Some x \<Rightarrow> {#opt_plain x#} | None \<Rightarrow> {#})
      = image_mset opt_plain (mset ?sorted)"
  proof (cases r)
    case None
    with mset_splice_remove [OF sr] show ?thesis by simp
  next
    case (Some x)
    with mset_splice_remove [OF sr] have "add_mset x (mset rest) = mset ?sorted" by simp
    then have "image_mset opt_plain (add_mset x (mset rest)) = image_mset opt_plain (mset ?sorted)"
      by simp
    with Some show ?thesis by simp
  qed
  have "mset (map without_order (fields_arr (reorderFields a b s)))
      = add_mset (opt_plain (case r of Some x \<Rightarrow> x | None \<Rightarrow> None))
          (image_mset opt_plain (mset rest))"
    by (simp add: f map_without_order_map_index mset_splice_insert)
  also have "\<dots> = image_mset opt_plain (mset ?sorted) + (if r = None then {#Bare 0#} else {#})"
    using rm by (cases r) auto
  finally show ?thesis by (simp add: rn multiset.map_comp o_def)
qed

lemma reorderFields_orders:
  "map obj_order (fields_arr (reorderFields a b s))
     = map int [0..<length (fields_arr (reorderFields a b s))]"
proof -
  obtain r rest where "splice_remove a (map Some (sort_key obj_order (fields_arr s))) = (r, rest)"
    by (cases "splice_remove a (map Some (sort_key obj_order (fields_arr s)))")
  then have "fields_arr (reorderFields a b s)
      = map_index renumber 0 (splice_insert b (case r of Some x \<Rightarrow> x | None \<Rightarrow> None) rest)"
    by (simp add: reorderFields_def addToHistory_def Let_def)
  then show ?thesis by (simp add: map_obj_order_map_index length_map_index)
qed

lemma plain_fields_reorderFields: "mset (plain_fields (reorderFields a b s)) = mset (plain_fields s)"
proof -
  have "mset (plain_fields h) = filter_mset (\<lambda>fo. obj_id fo \<noteq> None)
      (mset (map without_order (fields_arr h)))" for h :: FormBuilderState
    by (simp add: plain_fields_def)
  then show ?thesis by (simp add: reorderFields_objects [simplified])
qed

lemma keeps_objects_fields:
  assumes "keeps_field_objects a" "\<not> is_reorder a"
  shows "fields_arr (act a s) = fields_arr s"
proof (cases a)
  case (Mutate m)
  with assms show ?thesis by (cases m) (simp_all add: fields_unchanged)
qed (use assms in \<open>simp_all add: fields_unchanged\<close>)

lemma keeps_objects_plain:
  assumes "keeps_field_objects a"
  shows "mset (plain_fields (act a s)) = mset (plain_fields s)"
proof (cases "is_reorder a")
  case True
  then obtain x y where "a = Mutate (ReorderFields x y)"
    by (cases a rule: is_reorder.cases) auto
  then show ?thesis by (simp add: plain_fields_reorderFields)
next
  case False
  with assms have "fields_arr (act a s) = fields_arr s" by (rule keeps_objects_fields)
  then show ?thesis by (simp add: plain_fields_def)
qed

lemma keeps_objects_all_plain:
  "list_all keeps_field_objects as \<Longrightarrow> mset (plain_fields (act_all as s)) = mset (plain_fields s)"
  by (induction as arbitrary: s) (simp_all add: keeps_objects_plain)

lemma keeps_all_map_obj_id:
  "list_all (\<lambda>a. keeps_field_ids a \<and> \<not> is_reorder a) as \<Longrightarrow>
   map obj_id (fields_arr (act_all as s)) = map obj_id (fields_arr s)"
  by (induction as arbitrary: s) (simp_all add: keeps_map_obj_id)

text \<open>
  C8, as the code has it. No action rewrites the id of a field except updateField with a
  partial update that carries an id. updateField without an id in the update keeps the id
  at every position of the array. setFormName, addStep, updateStepName, removeStep,
  moveFieldToStep, setSelectedField, setActiveStep and toggleTheme leave the array of
  fields as it is. reorderFields keeps the field objects as a multiset, their \<^verbatim>\<open>order\<close>
  aside (so each field keeps its id and every other property), numbers the orders
  \<open>0, 1, 2, \<dots>\<close> along the new array, and when its start index lies outside the array adds
  one object that has an order and no id. The same holds along sequences of these actions.
  addField adds the new id at the end, removeField removes the given id, clearForm removes
  all ids, undo and redo put the ids of the restored snapshot in place.
\<close>

theorem field_ids_by_action:
  "(keeps_field_ids a \<and> \<not> is_reorder a \<longrightarrow>
      map obj_id (fields_arr (act a s)) = map obj_id (fields_arr s)) \<and>
   (keeps_field_objects a \<and> \<not> is_reorder a \<longrightarrow> fields_arr (act a s) = fields_arr s) \<and>
   mset (map without_order (fields_arr (reorderFields x y s)))
     = mset (map without_order (fields_arr s))
       + (if splice_start x (length (fields_arr s)) < length (fields_arr s)
          then {#} else {#Bare 0#}) \<and>
   map obj_order (fields_arr (reorderFields x y s))
     = map int [0..<length (fields_arr (reorderFields x y s))] \<and>
   (keeps_field_ids a \<longrightarrow> mset (field_ids (act a s)) = mset (field_ids s)) \<and>
   (list_all keeps_field_ids as \<longrightarrow> mset (field_ids (act_all as s)) = mset (field_ids s)) \<and>
   (list_all (\<lambda>a. keeps_field_ids a \<and> \<not> is_reorder a) as \<longrightarrow>
      map obj_id (fields_arr (act_all as s)) = map obj_id (fields_arr s)) \<and>
   (list_all keeps_field_objects as \<longrightarrow>
      mset (plain_fields (act_all as s)) = mset (plain_fields s)) \<and>
   field_ids (addField ty newId stepId s) = field_ids s @ [newId] \<and>
   field_ids (removeField i s) = filter (\<lambda>j. j \<noteq> i) (field_ids s) \<and>
   field_ids (clearForm s) = [] \<and>
   field_ids (undo s) = (if past s = [] then field_ids s else field_ids (last (past s))) \<and>
   field_ids (redo s) = (if future s = [] then field_ids s else field_ids (hd (future s)))"
proof -
  have a: "keeps_field_ids a \<and> \<not> is_reorder a \<longrightarrow>
      map obj_id (fields_arr (act a s)) = map obj_id (fields_arr s)"
    using keeps_map_obj_id [of a s] by blast
  have b: "keeps_field_objects a \<and> \<not> is_reorder a \<longrightarrow> fields_arr (act a s) = fields_arr s"
    using keeps_objects_fields [of a s] by blast
  note c = reorderFields_objects [of x y s]
  note d = reorderFields_orders [of x y s]
  have e: "keeps_field_ids a \<longrightarrow> mset (field_ids (act a s)) = mset (field_ids s)"
    by (simp add: keeps_mset_field_ids)
  have f: "list_all keeps_field_ids as \<longrightarrow> mset (field_ids (act_all as s)) = mset (field_ids s)"
    using keeps_all_mset_field_ids [of as s] by blast
  have g: "list_all (\<lambda>a. keeps_field_ids a \<and> \<not> is_reorder a) as \<longrightarrow>
      map obj_id (fields_arr (act_all as s)) = map obj_id (fields_arr s)"
    using keeps_all_map_obj_id [of as s] by blast
  have h: "list_all keeps_field_objects as \<longrightarrow>
      mset (plain_fields (act_all as s)) = mset (plain_fields s)"
    using keeps_objects_all_plain [of as s] by blast
  note i = field_ids_addField [of ty newId stepId s]
  note j = field_ids_removeField [of i s]
  note k = field_ids_clearForm [of s]
  note l = field_ids_undo [of s]
  note m = field_ids_redo [of s]
  from a b c d e f g h i j k l m show ?thesis by (intro conjI)
qed

theorem field_ids_by_action_witness:
  "keeps_field_ids (Mutate (UpdateField ''f2'' (no_updates\<lparr>u_label := Some ''Name''\<rparr>))) \<and>
   map obj_id (fields_arr (act (Mutate (UpdateField ''f2'' (no_updates\<lparr>u_label := Some ''Name''\<rparr>)))
      three_steps)) = [Some ''f1'', Some ''f2'', Some ''f3''] \<and>
   mset (map without_order (fields_arr (reorderFields 0 2 three_steps)))
     = mset (map without_order (fields_arr three_steps)) \<and>
   map obj_id (fields_arr (reorderFields 0 2 three_steps)) = [Some ''f2'', Some ''f3'', Some ''f1''] \<and>
   map obj_order (fields_arr (reorderFields 0 2 three_steps)) = [0, 1, 2] \<and>
   mset (map without_order (fields_arr (reorderFields 5 0 three_steps)))
     = mset (map without_order (fields_arr three_steps)) + {#Bare 0#} \<and>
   list_all keeps_field_objects [move_first_to_last, SetActiveStep ''s1'', move_from_outside] \<and>
   mset (plain_fields (act_all [move_first_to_last, SetActiveStep ''s1'', move_from_outside]
      three_steps)) = mset (plain_fields three_steps) \<and>
   field_ids (removeField ''f2'' three_steps) = [''f1'', ''f3'']"
proof -
  let ?a = "Mutate (UpdateField ''f2'' (no_updates\<lparr>u_label := Some ''Name''\<rparr>))"
  let ?as = "[move_first_to_last, SetActiveStep ''s1'', move_from_outside]"
  have h1: "keeps_field_ids ?a" by (simp add: no_updates_def)
  have h1': "\<not> is_reorder ?a" by simp
  have h2: "list_all keeps_field_objects ?as"
    by (simp add: move_first_to_last_def move_from_outside_def)
  have o: "map obj_id (fields_arr three_steps) = [Some ''f1'', Some ''f2'', Some ''f3'']"
    by (simp add: three_steps_def baseField_def)
  have ids: "field_ids three_steps = [''f1'', ''f2'', ''f3'']"
    by (simp add: field_ids_def three_steps_def baseField_def List.map_filter_simps)
  have len: "length (fields_arr three_steps) = 3" by (simp add: three_steps_def)
  note t = field_ids_by_action [of ?a three_steps 0 2 ?as Text "''f9''" "''s9''" "''f2''"]
  note t' = field_ids_by_action [of ?a three_steps 5 0 ?as Text "''f9''" "''s9''" "''f2''"]
  from t h1 h1' have "map obj_id (fields_arr (act ?a three_steps)) = map obj_id (fields_arr three_steps)"
    by blast
  with o have a: "map obj_id (fields_arr (act ?a three_steps)) = [Some ''f1'', Some ''f2'', Some ''f3'']"
    by simp
  from t have "mset (map without_order (fields_arr (reorderFields 0 2 three_steps)))
     = mset (map without_order (fields_arr three_steps))
       + (if splice_start 0 (length (fields_arr three_steps)) < length (fields_arr three_steps)
          then {#} else {#Bare 0#})"
    by (elim conjE)
  then have b: "mset (map without_order (fields_arr (reorderFields 0 2 three_steps)))
     = mset (map without_order (fields_arr three_steps))"
    by (simp add: len splice_start_def)
  have c: "map obj_id (fields_arr (reorderFields 0 2 three_steps)) = [Some ''f2'', Some ''f3'', Some ''f1'']"
    by code_simp
  have l3: "length (fields_arr (reorderFields 0 2 three_steps)) = 3" by code_simp
  from t have "map obj_order (fields_arr (reorderFields 0 2 three_steps))
     = map int [0..<length (fields_arr (reorderFields 0 2 three_steps))]"
    by (elim conjE)
  then have d: "map obj_order (fields_arr (reorderFields 0 2 three_steps)) = [0, 1, 2]"
    by (simp add: l3 upt_rec)
  from t' have "mset (map without_order (fields_arr (reorderFields 5 0 three_steps)))
     = mset (map without_order (fields_arr three_steps))
       + (if splice_start 5 (length (fields_arr three_steps)) < length (fields_arr three_steps)
          then {#} else {#Bare 0#})"
    by (elim conjE)
  then have e: "mset (map without_order (fields_arr (reorderFields 5 0 three_steps)))
     = mset (map without_order (fields_arr three_steps)) + {#Bare 0#}"
    by (simp add: len splice_start_def)
  from t h2 have f: "mset (plain_fields (act_all ?as three_steps)) = mset (plain_fields three_steps)"
    by blast
  from t have "field_ids (removeField ''f2'' three_steps)
      = filter (\<lambda>j. j \<noteq> ''f2'') (field_ids three_steps)"
    by (elim conjE)
  then have g: "field_ids (removeField ''f2'' three_steps) = [''f1'', ''f3'']"
    by (simp add: ids)
  from h1 a b c d e h2 f g show ?thesis by (intro conjI)
qed

lemma field_ids_one_field: "field_ids one_field = [''f1'']"
  by (simp add: one_field_def field_ids_addField)
     (simp add: field_ids_def initialFormBuilderState_def List.map_filter_simps)

text \<open>
  C8 as stated fails: after \<^verbatim>\<open>addField('text')\<close> the only field has id \<open>f1\<close>, and
  \<open>updateField\<close> with the partial update \<^verbatim>\<open>{ id: 'x' }\<close> changes the id of that field to \<open>x\<close>.
\<close>

theorem field_id_changed_counterexample:
  "field_ids one_field = [''f1''] \<and>
   field_ids (updateField ''f1'' (no_updates\<lparr>u_id := Some ''x''\<rparr>) one_field) = [''x'']"
  by (simp add: field_ids_one_field)
     (simp add: one_field_def field_ids_def fields_updateField fields_addField
       initialFormBuilderState_def List.map_filter_simps baseField_def merge_updates_def
       no_updates_def)



section \<open>The store's invariant\<close>

lemma doc_inv_historyState [simp]: "doc_inv (historyState s) = doc_inv s"
  by (simp add: doc_inv_def listed_ids_def historyState_def field_ids_def)

lemma set_slice_last: "set (slice_last n xs) \<subseteq> set xs"
  by (simp add: slice_last_def set_drop_subset)

lemma future_mutate: "future (mutate m s) = []"
proof (cases m)
  case (AddField ty a b)
  then show ?thesis by (simp add: addField_def Let_def addToHistory_def)
next
  case (RemoveStep i)
  then show ?thesis by (simp add: removeStep_def Let_def addToHistory_def split: option.splits)
next
  case (ReorderFields a b)
  then show ?thesis by (simp add: reorderFields_def Let_def addToHistory_def split: prod.splits)
qed (simp_all add: updateField_def removeField_def setFormName_def addStep_def
       updateStepName_def moveFieldToStep_def clearForm_def Let_def addToHistory_def)

lemma steps_addField:
  "steps (addField ty newId stepId s) =
     (if steps s = [] then [\<lparr>id_step = stepId, name = ''Step 1'', fieldIds = [newId]\<rparr>]
      else if find (\<lambda>st. Some (id_step st) = activeStepId s) (steps s) \<noteq> None
           then modify_found (\<lambda>st. Some (id_step st) = activeStepId s) (push_fieldId newId) (steps s)
           else modify_found (\<lambda>st. True) (push_fieldId newId) (steps s))"
  by (simp add: addField_def addToHistory_def Let_def)

lemma steps_removeField:
  "steps (removeField i s) =
     filter (\<lambda>st. length (fieldIds st) > 0)
       (map (\<lambda>st. st\<lparr>fieldIds := filter (\<lambda>j. j \<noteq> i) (fieldIds st)\<rparr>) (steps s))"
  by (simp add: removeField_def addToHistory_def Let_def)

lemma steps_addStep:
  "steps (addStep stepId s) =
     steps s @ [\<lparr>id_step = stepId, name = ''Step '' @ show_nat (length (steps s) + 1), fieldIds = []\<rparr>]"
  by (simp add: addStep_def addToHistory_def Let_def)

lemma steps_updateStepName:
  "steps (updateStepName stepId n s) =
     map (\<lambda>st. if id_step st = stepId then st\<lparr>name := n\<rparr> else st) (steps s)"
  by (simp add: updateStepName_def addToHistory_def Let_def)

lemma steps_removeStep:
  "steps (removeStep stepId s) =
     (case find (\<lambda>st. id_step st = stepId) (steps s) of
        None \<Rightarrow> steps s
      | Some r \<Rightarrow>
          (let rest = filter (\<lambda>st. id_step st \<noteq> stepId) (steps s)
           in if rest \<noteq> [] \<and> fieldIds r \<noteq> []
              then modify_found (\<lambda>st. id_step st = id_step (hd rest))
                     (\<lambda>st. st\<lparr>fieldIds := fieldIds st @ fieldIds r\<rparr>) rest
              else rest))"
  by (simp add: removeStep_def addToHistory_def Let_def split: option.splits)

lemma steps_unchanged:
  "steps (updateField i u s) = steps s"
  "steps (reorderFields a b s) = steps s"
  "steps (setFormName n s) = steps s"
  "steps (setSelectedField sel s) = steps s"
  "steps (setActiveStep stepId s) = steps s"
  "steps (toggleTheme s) = steps s"
  by (simp_all add: updateField_def reorderFields_def setFormName_def setSelectedField_def
      setActiveStep_def toggleTheme_def addToHistory_def Let_def split: prod.splits)

lemma steps_clearForm: "steps (clearForm s) = []"
  by (simp add: clearForm_def addToHistory_def Let_def)

lemma ids_modify_found:
  "(\<And>x. id_step (f x) = id_step x) \<Longrightarrow> map id_step (modify_found P f xs) = map id_step xs"
  by (induction xs) auto

lemma mset_listed_modify_found:
  "(\<And>x. fieldIds (f x) = fieldIds x @ ys) \<Longrightarrow>
   mset (concat (map fieldIds (modify_found P f xs)))
     = mset (concat (map fieldIds xs)) + (if \<exists>x \<in> set xs. P x then mset ys else {#})"
  by (induction xs) auto

lemma distinct_of_mset_add:
  "mset zs = add_mset i (mset xs) \<Longrightarrow> distinct xs \<Longrightarrow> i \<notin> set xs \<Longrightarrow> distinct zs"
proof -
  assume a: "mset zs = add_mset i (mset xs)" and d: "distinct xs" "i \<notin> set xs"
  from a have "mset zs = mset (i # xs)" by simp
  then have "distinct zs \<longleftrightarrow> distinct (i # xs)" by (rule mset_eq_imp_distinct_iff)
  with d show ?thesis by simp
qed

lemma listed_removeField:
  "concat (map fieldIds (filter (\<lambda>st. length (fieldIds st) > 0)
       (map (\<lambda>st. st\<lparr>fieldIds := filter (\<lambda>j. j \<noteq> i) (fieldIds st)\<rparr>) xs)))
   = filter (\<lambda>j. j \<noteq> i) (concat (map fieldIds xs))"
  by (induction xs) auto

lemma ids_removeField:
  "distinct (map id_step xs) \<Longrightarrow>
   distinct (map id_step (filter P (map (\<lambda>st. st\<lparr>fieldIds := g st\<rparr>) xs)))"
  by (induction xs) auto

lemma moved_ids_not_target:
  "t \<notin> id_step ` set xs \<Longrightarrow>
   concat (map (moved_ids f t) xs) = filter (\<lambda>j. j \<noteq> f) (concat (map fieldIds xs))"
  by (induction xs) (auto simp: moved_ids_def)

lemma set_moved_ids: "set (concat (map (moved_ids f t) xs)) \<subseteq> insert f (set (concat (map fieldIds xs)))"
  by (induction xs) (auto simp: moved_ids_def)

lemma distinct_moved_ids:
  "distinct (map id_step xs) \<Longrightarrow> distinct (concat (map fieldIds xs)) \<Longrightarrow>
   distinct (concat (map (moved_ids f t) xs))"
proof (induction xs)
  case Nil
  then show ?case by simp
next
  case (Cons x xs)
  then have ih: "distinct (concat (map (moved_ids f t) xs))" by simp
  from Cons.prems have dx: "distinct (fieldIds x)"
    and dj: "set (fieldIds x) \<inter> set (concat (map fieldIds xs)) = {}" by auto
  show ?case
  proof (cases "id_step x = t")
    case True
    with Cons.prems have "t \<notin> id_step ` set xs" by auto
    then have r: "concat (map (moved_ids f t) xs) = filter (\<lambda>j. j \<noteq> f) (concat (map fieldIds xs))"
      by (rule moved_ids_not_target)
    from True have m: "moved_ids f t x = filter (\<lambda>j. j \<noteq> f) (fieldIds x) @ [f]"
      by (simp add: moved_ids_def)
    from dx dj ih show ?thesis
      unfolding list.map concat.simps m r by auto
  next
    case False
    have "set (concat (map (moved_ids f t) xs)) \<subseteq> insert f (set (concat (map fieldIds xs)))"
      by (rule set_moved_ids)
    moreover from False have "moved_ids f t x = filter (\<lambda>j. j \<noteq> f) (fieldIds x)"
      by (simp add: moved_ids_def)
    ultimately show ?thesis using dx dj ih by auto
  qed
qed

lemma listed_moveFieldToStep:
  "listed_ids (moveFieldToStep f t s) = concat (map (moved_ids f t) (steps s))"
  by (simp add: listed_ids_def steps_moveFieldToStep o_def)

lemma mset_listed_split:
  "mset (concat (map fieldIds xs))
     = mset (concat (map fieldIds (filter P xs))) + mset (concat (map fieldIds (filter (\<lambda>x. \<not> P x) xs)))"
  by (induction xs) auto

lemma filter_id_unique:
  "distinct (map id_step xs) \<Longrightarrow> r \<in> set xs \<Longrightarrow> filter (\<lambda>st. id_step st = id_step r) xs = [r]"
proof (induction xs)
  case Nil
  then show ?case by simp
next
  case (Cons x xs)
  show ?case
  proof (cases "x = r")
    case True
    with Cons.prems have "id_step r \<notin> id_step ` set xs" by auto
    then have "\<forall>y \<in> set xs. id_step y \<noteq> id_step r" by (metis imageI)
    then have "filter (\<lambda>st. id_step st = id_step r) xs = []" by (simp add: filter_empty_conv)
    with True show ?thesis by simp
  next
    case False
    with Cons.prems have "r \<in> set xs" "id_step x \<noteq> id_step r" by auto
    with Cons show ?thesis by simp
  qed
qed

lemma distinct_of_subseteq_mset:
  assumes "mset ys \<subseteq># mset xs" "distinct xs" shows "distinct ys"
proof -
  have le: "count (mset ys) a \<le> 1" for a
  proof -
    from assms(1) have "count (mset ys) a \<le> count (mset xs) a" by (rule mset_subset_eq_count)
    also from assms(2) have "\<dots> \<le> 1" by (simp add: distinct_count_atmost_1)
    finally show ?thesis .
  qed
  show ?thesis
    unfolding distinct_count_atmost_1
  proof (intro allI)
    fix a
    show "count (mset ys) a = (if a \<in> set ys then 1 else 0)"
    proof (cases "a \<in> set ys")
      case True
      then have "count (mset ys) a \<noteq> 0" by (simp add: count_eq_zero_iff)
      with le [of a] have "count (mset ys) a = 1" by linarith
      with True show ?thesis by simp
    next
      case False
      then show ?thesis by (simp add: count_eq_zero_iff)
    qed
  qed
qed

lemma doc_inv_cong:
  "set (field_ids h') = set (field_ids h) \<Longrightarrow> steps h' = steps h \<Longrightarrow> doc_inv h \<Longrightarrow> doc_inv h'"
  by (simp add: doc_inv_def listed_ids_def)

lemma doc_inv_addField:
  assumes "doc_inv s" "newId \<notin> set (field_ids s)" "stepId \<notin> set (map id_step (steps s))"
  shows "doc_inv (addField ty newId stepId s)"
proof (cases "steps s = []")
  case True
  then show ?thesis
    by (simp add: doc_inv_def listed_ids_def steps_addField field_ids_addField)
next
  case False
  let ?P = "\<lambda>st. Some (id_step st) = activeStepId s"
  let ?steps' = "steps (addField ty newId stepId s)"
  from assms(1) have sub: "set (listed_ids s) \<subseteq> set (field_ids s)" and d: "distinct (listed_ids s)"
    and ds: "distinct (map id_step (steps s))" by (auto simp: doc_inv_def)
  have push: "\<And>x. fieldIds (push_fieldId newId x) = fieldIds x @ [newId]"
    and pid: "\<And>x. id_step (push_fieldId newId x) = id_step x"
    by (simp_all add: push_fieldId_def)
  have ms: "mset (concat (map fieldIds ?steps')) = add_mset newId (mset (listed_ids s))"
  proof (cases "find ?P (steps s) = None")
    case True
    from False have "\<exists>x \<in> set (steps s). True" by (cases "steps s") auto
    with True False show ?thesis
      by (simp add: steps_addField listed_ids_def mset_listed_modify_found [OF push])
  next
    case nn: False
    then have "\<exists>x \<in> set (steps s). ?P x" by (simp add: find_None_iff_set)
    with nn False show ?thesis
      by (simp add: steps_addField listed_ids_def mset_listed_modify_found [OF push])
  qed
  from sub assms(2) have nin: "newId \<notin> set (listed_ids s)" by auto
  from ms d nin have d': "distinct (concat (map fieldIds ?steps'))" by (rule distinct_of_mset_add)
  from ms have "set (concat (map fieldIds ?steps')) = insert newId (set (listed_ids s))"
    by (metis mset_eq_setD set_mset_add_mset_insert set_mset_mset)
  with sub have sub': "set (concat (map fieldIds ?steps')) \<subseteq> set (field_ids s @ [newId])" by auto
  have ids: "map id_step ?steps' = map id_step (steps s)"
    using False by (simp add: steps_addField ids_modify_found [OF pid])
  from sub' d' ids ds show ?thesis
    by (simp add: doc_inv_def listed_ids_def field_ids_addField)
qed

lemma field_ids_updateField:
  "u_id u = None \<Longrightarrow> field_ids (updateField i u s) = field_ids s"
  by (simp add: field_ids_def fields_updateField map_filter_update_obj)

lemma doc_inv_updateField: "u_id u = None \<Longrightarrow> doc_inv s \<Longrightarrow> doc_inv (updateField i u s)"
  by (rule doc_inv_cong) (simp_all add: field_ids_updateField steps_unchanged)

lemma doc_inv_removeField:
  assumes "doc_inv s"
  shows "doc_inv (removeField i s)"
proof -
  from assms have sub: "set (listed_ids s) \<subseteq> set (field_ids s)" and d: "distinct (listed_ids s)"
    and ds: "distinct (map id_step (steps s))" by (auto simp: doc_inv_def)
  have l: "listed_ids (removeField i s) = filter (\<lambda>j. j \<noteq> i) (listed_ids s)"
    by (simp add: listed_ids_def steps_removeField listed_removeField [simplified])
  from ds have "distinct (map id_step (steps (removeField i s)))"
    unfolding steps_removeField by (rule ids_removeField)
  with sub d show ?thesis
    by (auto simp: doc_inv_def l field_ids_removeField)
qed

lemma doc_inv_reorderFields: "doc_inv s \<Longrightarrow> doc_inv (reorderFields a b s)"
proof (rule doc_inv_cong)
  show "set (field_ids (reorderFields a b s)) = set (field_ids s)"
    using field_ids_reorderFields [of a b s] by (rule mset_eq_setD)
qed (simp_all add: steps_unchanged)

lemma field_ids_unchanged:
  "field_ids (setFormName n s) = field_ids s"
  "field_ids (addStep stepId s) = field_ids s"
  "field_ids (updateStepName stepId n s) = field_ids s"
  "field_ids (removeStep stepId s) = field_ids s"
  "field_ids (moveFieldToStep i stepId s) = field_ids s"
  "field_ids (setSelectedField sel s) = field_ids s"
  "field_ids (setActiveStep stepId s) = field_ids s"
  "field_ids (toggleTheme s) = field_ids s"
  by (simp_all add: field_ids_def fields_unchanged)

lemma doc_inv_setFormName: "doc_inv s \<Longrightarrow> doc_inv (setFormName n s)"
  by (rule doc_inv_cong) (simp_all add: field_ids_unchanged steps_unchanged)

lemma doc_inv_addStep:
  "doc_inv s \<Longrightarrow> stepId \<notin> set (map id_step (steps s)) \<Longrightarrow> doc_inv (addStep stepId s)"
  by (simp add: doc_inv_def listed_ids_def steps_addStep field_ids_unchanged)

lemma doc_inv_updateStepName: "doc_inv s \<Longrightarrow> doc_inv (updateStepName stepId n s)"
proof -
  let ?g = "\<lambda>st. if id_step st = stepId then st\<lparr>name := n\<rparr> else st"
  have "map fieldIds (map ?g (steps s)) = map fieldIds (steps s)"
    and "map id_step (map ?g (steps s)) = map id_step (steps s)"
    by (simp_all add: o_def if_distrib cong: if_cong)
  then show "doc_inv s \<Longrightarrow> doc_inv (updateStepName stepId n s)"
    by (simp add: doc_inv_def listed_ids_def steps_updateStepName field_ids_unchanged
        del: map_map)
qed

lemma doc_inv_moveFieldToStep:
  assumes "doc_inv s" "f \<in> set (field_ids s)"
  shows "doc_inv (moveFieldToStep f t s)"
proof -
  from assms(1) have sub: "set (listed_ids s) \<subseteq> set (field_ids s)" and d: "distinct (listed_ids s)"
    and ds: "distinct (map id_step (steps s))" by (auto simp: doc_inv_def)
  from ds d [unfolded listed_ids_def]
  have "distinct (concat (map (moved_ids f t) (steps s)))" by (rule distinct_moved_ids)
  then have d': "distinct (listed_ids (moveFieldToStep f t s))"
    by (simp only: listed_moveFieldToStep)
  have "set (concat (map (moved_ids f t) (steps s))) \<subseteq> insert f (set (concat (map fieldIds (steps s))))"
    by (rule set_moved_ids)
  then have "set (listed_ids (moveFieldToStep f t s)) \<subseteq> insert f (set (listed_ids s))"
    by (simp only: listed_moveFieldToStep listed_ids_def [of s])
  with sub assms(2)
  have sub': "set (listed_ids (moveFieldToStep f t s)) \<subseteq> set (field_ids s)"
    by blast
  have "map id_step (steps (moveFieldToStep f t s)) = map id_step (steps s)"
    by (simp add: steps_moveFieldToStep o_def)
  with d' sub' ds show ?thesis by (simp add: doc_inv_def field_ids_unchanged)
qed

lemma doc_inv_clearForm: "doc_inv (clearForm s)"
  by (simp add: doc_inv_def listed_ids_def steps_clearForm field_ids_clearForm)

lemma doc_inv_removeStep:
  assumes "doc_inv s"
  shows "doc_inv (removeStep stepId s)"
proof (cases "find (\<lambda>st. id_step st = stepId) (steps s)")
  case None
  then have "steps (removeStep stepId s) = steps s" by (simp add: steps_removeStep)
  with assms show ?thesis by (simp add: doc_inv_def listed_ids_def field_ids_unchanged)
next
  case (Some r)
  from assms have sub: "set (listed_ids s) \<subseteq> set (field_ids s)" and d: "distinct (listed_ids s)"
    and ds: "distinct (map id_step (steps s))" by (auto simp: doc_inv_def)
  let ?rest = "filter (\<lambda>st. id_step st \<noteq> stepId) (steps s)"
  let ?steps' = "steps (removeStep stepId s)"
  let ?f = "\<lambda>st. st\<lparr>fieldIds := fieldIds st @ fieldIds r\<rparr>"
  from Some have r: "r \<in> set (steps s)" "id_step r = stepId" by (auto dest: find_Some_set)
  with ds have one: "filter (\<lambda>st. id_step st = stepId) (steps s) = [r]"
    using filter_id_unique by blast
  have split: "mset (listed_ids s) = mset (concat (map fieldIds ?rest)) + mset (fieldIds r)"
    using mset_listed_split [of "steps s" "\<lambda>st. id_step st \<noteq> stepId"] one
    by (simp add: listed_ids_def)
  have ids: "map id_step ?steps' = map id_step ?rest"
    using Some by (simp add: steps_removeStep Let_def ids_modify_found)
  have sm: "mset (concat (map fieldIds ?steps')) \<subseteq># mset (listed_ids s)"
  proof (cases "?rest \<noteq> [] \<and> fieldIds r \<noteq> []")
    case True
    then have "\<exists>x \<in> set ?rest. id_step x = id_step (hd ?rest)"
      by (metis hd_in_set)
    moreover have "mset (concat (map fieldIds
        (modify_found (\<lambda>st. id_step st = id_step (hd ?rest)) ?f ?rest)))
      = mset (concat (map fieldIds ?rest))
        + (if \<exists>x \<in> set ?rest. id_step x = id_step (hd ?rest) then mset (fieldIds r) else {#})"
      by (rule mset_listed_modify_found) simp
    ultimately have "mset (concat (map fieldIds
        (modify_found (\<lambda>st. id_step st = id_step (hd ?rest)) ?f ?rest)))
      = mset (concat (map fieldIds ?rest)) + mset (fieldIds r)"
      by (simp only: if_True)
    with True Some show ?thesis by (simp add: steps_removeStep Let_def split)
  next
    case False
    with Some show ?thesis by (auto simp: steps_removeStep Let_def split)
  qed
  from sm have "set (concat (map fieldIds ?steps')) \<subseteq> set (listed_ids s)"
    by (metis set_mset_mono set_mset_mset)
  with sub have sub': "set (concat (map fieldIds ?steps')) \<subseteq> set (field_ids s)" by auto
  from sm d have d': "distinct (concat (map fieldIds ?steps'))"
    by (rule distinct_of_subseteq_mset)
  from ds have "distinct (map id_step ?rest)" by (rule distinct_map_filter)
  with ids sub' d' show ?thesis
    by (simp add: doc_inv_def listed_ids_def field_ids_unchanged)
qed

lemma doc_inv_mutate:
  assumes "doc_inv s" "well_referenced (Mutate m) s"
  shows "doc_inv (mutate m s)"
proof (cases m)
  case (AddField ty newId stepId)
  with assms show ?thesis by (simp add: well_referenced_def doc_inv_addField)
next
  case (UpdateField i u)
  with assms show ?thesis by (simp add: well_referenced_def doc_inv_updateField)
next
  case (RemoveField i)
  with assms show ?thesis by (simp add: doc_inv_removeField)
next
  case (ReorderFields a b)
  with assms show ?thesis by (simp add: doc_inv_reorderFields)
next
  case (SetFormName n)
  with assms show ?thesis by (simp add: doc_inv_setFormName)
next
  case (AddStep stepId)
  with assms show ?thesis by (simp add: well_referenced_def doc_inv_addStep)
next
  case (UpdateStepName stepId n)
  with assms show ?thesis by (simp add: doc_inv_updateStepName)
next
  case (RemoveStep stepId)
  with assms show ?thesis by (simp add: doc_inv_removeStep)
next
  case (MoveFieldToStep i stepId)
  with assms show ?thesis by (simp add: well_referenced_def doc_inv_moveFieldToStep)
next
  case ClearForm
  then show ?thesis by (simp add: doc_inv_clearForm)
qed

lemma store_inv_mutate:
  assumes "store_inv s" "well_referenced (Mutate m) s"
  shows "store_inv (mutate m s)"
proof -
  from assms have "doc_inv (mutate m s)" by (simp add: store_inv_def doc_inv_mutate)
  moreover have "\<forall>h \<in> set (past (mutate m s)). doc_inv h"
    using assms(1) set_slice_last [of 9 "past s"]
    by (auto simp: past_mutate store_inv_def)
  ultimately show ?thesis by (simp add: store_inv_def future_mutate)
qed

lemma doc_inv_eq:
  "fields_arr h' = fields_arr h \<Longrightarrow> steps h' = steps h \<Longrightarrow> doc_inv h' = doc_inv h"
  by (simp add: doc_inv_def listed_ids_def field_ids_def)

lemma store_inv_undo: "store_inv s \<Longrightarrow> store_inv (undo s)"
proof (cases "past s = []")
  case True
  then show "store_inv s \<Longrightarrow> store_inv (undo s)" by (simp add: undo_noop)
next
  case False
  assume inv: "store_inv s"
  from False have l: "last (past s) \<in> set (past s)" by simp
  have "doc_inv (undo s) = doc_inv (last (past s))"
    using False by (intro doc_inv_eq) (simp_all add: undo_def Let_def)
  with inv l have a: "doc_inv (undo s)" by (simp add: store_inv_def)
  have b: "\<forall>h \<in> set (past (undo s)). doc_inv h"
    using inv by (auto simp: past_undo store_inv_def dest: in_set_butlastD)
  have "future (undo s) = historyState s # future s"
    using False by (simp add: undo_def Let_def)
  with inv have c: "\<forall>h \<in> set (future (undo s)). doc_inv h" by (simp add: store_inv_def)
  from a b c show "store_inv (undo s)" by (simp add: store_inv_def)
qed

lemma in_set_tl: "x \<in> set (tl xs) \<Longrightarrow> x \<in> set xs"
  by (cases xs) auto

lemma store_inv_redo: "store_inv s \<Longrightarrow> store_inv (redo s)"
proof (cases "future s = []")
  case True
  then show "store_inv s \<Longrightarrow> store_inv (redo s)" by (simp add: redo_def)
next
  case False
  assume inv: "store_inv s"
  from False have l: "hd (future s) \<in> set (future s)" by simp
  have "doc_inv (redo s) = doc_inv (hd (future s))"
    using False by (intro doc_inv_eq) (simp_all add: redo_def Let_def)
  with inv l have a: "doc_inv (redo s)" by (simp add: store_inv_def)
  have "past (redo s) = past s @ [historyState s]" "future (redo s) = tl (future s)"
    using False by (simp_all add: redo_def Let_def)
  with inv have b: "\<forall>h \<in> set (past (redo s)). doc_inv h"
    and c: "\<forall>h \<in> set (future (redo s)). doc_inv h"
    by (auto simp: store_inv_def dest: in_set_tl)
  from a b c show "store_inv (redo s)" by (simp add: store_inv_def)
qed

lemma store_inv_act:
  assumes "store_inv s" "well_referenced a s"
  shows "store_inv (act a s)"
proof (cases a)
  case (Mutate m)
  with assms show ?thesis by (simp add: store_inv_mutate)
next
  case (SetSelectedField i)
  with assms(1) show ?thesis
    by (simp add: store_inv_def setSelectedField_def doc_inv_def listed_ids_def field_ids_def)
next
  case (SetActiveStep i)
  with assms(1) show ?thesis
    by (simp add: store_inv_def setActiveStep_def doc_inv_def listed_ids_def field_ids_def)
next
  case ToggleTheme
  with assms(1) show ?thesis
    by (simp add: store_inv_def toggleTheme_def doc_inv_def listed_ids_def field_ids_def)
next
  case Undo
  with assms(1) show ?thesis by (simp add: store_inv_undo)
next
  case Redo
  with assms(1) show ?thesis by (simp add: store_inv_redo)
qed

lemma store_inv_act_all:
  "store_inv s \<Longrightarrow> guarded well_referenced as s \<Longrightarrow> store_inv (act_all as s)"
  by (induction as arbitrary: s) (simp_all add: store_inv_act)

lemma store_inv_initial: "store_inv initialFormBuilderState"
  by (simp add: store_inv_def doc_inv_def listed_ids_def field_ids_def
      initialFormBuilderState_def List.map_filter_simps)

lemma disjoint_of_distinct_concat:
  "distinct (concat (map g xs)) \<Longrightarrow> a < length xs \<Longrightarrow> b < length xs \<Longrightarrow> a \<noteq> b \<Longrightarrow>
   set (g (xs ! a)) \<inter> set (g (xs ! b)) = {}"
proof (induction xs arbitrary: a b)
  case Nil
  then show ?case by simp
next
  case (Cons x xs)
  show ?case
  proof (cases a)
    case 0
    with Cons.prems obtain b' where b: "b = Suc b'" "b' < length xs" by (cases b) auto
    then have "xs ! b' \<in> set xs" by simp
    then have "set (g (xs ! b')) \<subseteq> set (concat (map g xs))" by auto
    moreover from Cons.prems(1) have "set (g x) \<inter> set (concat (map g xs)) = {}" by simp
    ultimately have "set (g x) \<inter> set (g (xs ! b')) = {}" by blast
    with 0 b show ?thesis by simp
  next
    case (Suc a')
    show ?thesis
    proof (cases b)
      case 0
      from Suc Cons.prems have "xs ! a' \<in> set xs" by simp
      then have "set (g (xs ! a')) \<subseteq> set (concat (map g xs))" by auto
      moreover from Cons.prems(1) have "set (g x) \<inter> set (concat (map g xs)) = {}" by simp
      ultimately have "set (g (xs ! a')) \<inter> set (g x) = {}" by blast
      with 0 Suc show ?thesis by simp
    next
      case (Suc b')
      with \<open>a = Suc a'\<close> Cons.prems Cons.IH [of a' b'] show ?thesis by simp
    qed
  qed
qed

lemma referential_integrity_of_doc_inv: "doc_inv h \<Longrightarrow> referential_integrity h"
proof -
  assume a: "doc_inv h"
  then have sub: "set (listed_ids h) \<subseteq> set (field_ids h)" and d: "distinct (listed_ids h)"
    by (auto simp: doc_inv_def)
  from sub have 1: "\<forall>st \<in> set (steps h). \<forall>i \<in> set (fieldIds st). i \<in> set (field_ids h)"
    by (auto simp: listed_ids_def)
  from d have d': "distinct (concat (map fieldIds (steps h)))" by (simp add: listed_ids_def)
  have 2: "\<forall>a < length (steps h). \<forall>b < length (steps h).
        a \<noteq> b \<longrightarrow> set (fieldIds (steps h ! a)) \<inter> set (fieldIds (steps h ! b)) = {}"
  proof (intro allI impI)
    fix a b assume "a < length (steps h)" "b < length (steps h)" "a \<noteq> b"
    with d' show "set (fieldIds (steps h ! a)) \<inter> set (fieldIds (steps h ! b)) = {}"
      by (rule disjoint_of_distinct_concat)
  qed
  from 1 2 show ?thesis by (simp add: referential_integrity_def)
qed

text \<open>
  C2, as the code has it. From the empty document, let any sequence of the store's fifteen
  actions run in which the identifiers from \<^verbatim>\<open>uuidv4\<close> are fresh, no partial update of
  \<open>updateField\<close> carries an id, and \<open>moveFieldToStep\<close> is called with the id of an existing
  field. Then in the document reached every id in a step's list is the id of a field, no
  id is in the lists of two steps (nor twice in one), step ids are unique, and the same
  holds of every entry of the past and future stacks.
\<close>

theorem referential_integrity_reachable:
  assumes "guarded well_referenced as initialFormBuilderState"
  shows "referential_integrity (act_all as initialFormBuilderState) \<and>
         set (listed_ids (act_all as initialFormBuilderState))
           \<subseteq> set (field_ids (act_all as initialFormBuilderState)) \<and>
         distinct (listed_ids (act_all as initialFormBuilderState)) \<and>
         distinct (map id_step (steps (act_all as initialFormBuilderState))) \<and>
         (\<forall>h \<in> set (past (act_all as initialFormBuilderState))
                 \<union> set (future (act_all as initialFormBuilderState)).
            referential_integrity h)"
proof -
  from store_inv_initial assms have "store_inv (act_all as initialFormBuilderState)"
    by (rule store_inv_act_all)
  then show ?thesis
    by (auto simp: store_inv_def doc_inv_def intro: referential_integrity_of_doc_inv)
qed

theorem referential_integrity_reachable_witness:
  "guarded well_referenced edit_session initialFormBuilderState \<and>
   set (listed_ids (act_all edit_session initialFormBuilderState))
     \<subseteq> set (field_ids (act_all edit_session initialFormBuilderState)) \<and>
   distinct (listed_ids (act_all edit_session initialFormBuilderState)) \<and>
   listed_ids (act_all edit_session initialFormBuilderState) = [''f2'', ''f1'']"
proof -
  have h: "guarded well_referenced edit_session initialFormBuilderState" by code_simp
  note t = referential_integrity_reachable [OF h]
  from t have a: "set (listed_ids (act_all edit_session initialFormBuilderState))
     \<subseteq> set (field_ids (act_all edit_session initialFormBuilderState))"
    by (elim conjE)
  from t have b: "distinct (listed_ids (act_all edit_session initialFormBuilderState))"
    by (elim conjE)
  have c: "listed_ids (act_all edit_session initialFormBuilderState) = [''f2'', ''f1'']"
    by code_simp
  from h a b c show ?thesis by (intro conjI)
qed

text \<open>
  C2 as stated fails, in two ways, both with fresh identifiers. After
  \<^verbatim>\<open>addField('text')\<close>, \<^verbatim>\<open>moveFieldToStep('ghost', s1)\<close> puts the id \<open>ghost\<close>, which no
  field has, into the list of step \<open>s1\<close>; and \<^verbatim>\<open>updateField(f1, { id: 'x' })\<close> renames the
  field while the step still lists \<open>f1\<close>.
\<close>

theorem referential_integrity_counterexample:
  "guarded fresh_ids ghost_move initialFormBuilderState \<and>
   \<not> referential_integrity (act_all ghost_move initialFormBuilderState) \<and>
   guarded fresh_ids id_rewrite initialFormBuilderState \<and>
   \<not> referential_integrity (act_all id_rewrite initialFormBuilderState)"
  by code_simp

end
